theory Spec2Isabelle
  imports Main "HOL-Library.Word" "HOL-Library.Multiset"
begin

section \<open>Types and values as package reflect presents them\<close>

text \<open>
  The library works on \<^verbatim>\<open>reflect.Type\<close> and \<^verbatim>\<open>reflect.Value\<close>. A Go \<^verbatim>\<open>int\<close> is
  taken at 64 bits; the result of a three-way comparison is such an \<^verbatim>\<open>int\<close>, so its
  negation wraps around. Indices and lengths are mathematical integers, and the one place
  where the source relies on unsigned arithmetic (the midpoint of \<^verbatim>\<open>Search\<close>) writes the
  wrap-around out.
\<close>

type_synonym go_int = "64 word"

datatype kind =
    Invalid | Bool | IntK | Int8 | Int16 | Int32 | Int64
  | Uint | Uint8 | Uint16 | Uint32 | Uint64 | Uintptr
  | Float32 | Float64 | Complex64 | Complex128
  | Array | Chan | Func | Interface | Map | Ptr | Slice | String | Struct | UnsafePointer

text \<open>
  \<open>Named n k\<close> is a type called \<open>n\<close> of kind \<open>k\<close> whose structure the library never looks
  into (every kind but \<open>Ptr\<close>, \<open>Slice\<close> and \<open>Struct\<close>); the predeclared \<^verbatim>\<open>int\<close> is
  \<open>Named ''int'' IntK\<close> (the kind \<^verbatim>\<open>reflect.Int\<close> is written \<open>IntK\<close>: \<open>Int\<close> is HOL's
  intersection). A struct type carries its name and its fields.
\<close>

datatype rtype =
    Named string kind
  | PtrTo rtype
  | SliceOf rtype
  | StructT string "(string \<times> rtype) list"

fun Type_Kind :: "rtype \<Rightarrow> kind" where
  "Type_Kind (Named n k) = k"
| "Type_Kind (PtrTo e) = Ptr"
| "Type_Kind (SliceOf e) = Slice"
| "Type_Kind (StructT n fs) = Struct"

text \<open>
  \<^verbatim>\<open>Type.Bits\<close>: the size of an arithmetic kind. reflect panics on the other kinds; the
  library asks only behind the test that both kinds are in one numeric group, and the
  value given there to the other kinds is never read.
\<close>

fun Kind_Bits :: "kind \<Rightarrow> nat" where
  "Kind_Bits IntK = 64" | "Kind_Bits Int8 = 8" | "Kind_Bits Int16 = 16"
| "Kind_Bits Int32 = 32" | "Kind_Bits Int64 = 64"
| "Kind_Bits Uint = 64" | "Kind_Bits Uint8 = 8" | "Kind_Bits Uint16 = 16"
| "Kind_Bits Uint32 = 32" | "Kind_Bits Uint64 = 64" | "Kind_Bits Uintptr = 64"
| "Kind_Bits Float32 = 32" | "Kind_Bits Float64 = 64"
| "Kind_Bits Complex64 = 64" | "Kind_Bits Complex128 = 128"
| "Kind_Bits _ = 0"

definition Type_Bits :: "rtype \<Rightarrow> nat" where
  "Type_Bits tp = Kind_Bits (Type_Kind tp)"

text \<open>
  \<^verbatim>\<open>Type.ConvertibleTo\<close>, after the conversion rules of the language for the types of this
  model: identical underlying types, two integer or floating point types, two complex
  types, pointers to types with one underlying type, and the conversions to and from
  strings.
\<close>

fun underlying :: "rtype \<Rightarrow> rtype" where
  "underlying (Named n k) =
     (if k \<in> {Array, Chan, Func, Interface, Map} then Named n k else Named [] k)"
| "underlying (PtrTo e) = PtrTo e"
| "underlying (SliceOf e) = SliceOf e"
| "underlying (StructT n fs) = StructT [] fs"

definition int_or_float :: "kind \<Rightarrow> bool" where
  "int_or_float k \<longleftrightarrow>
     k \<in> {IntK, Int8, Int16, Int32, Int64, Uint, Uint8, Uint16, Uint32, Uint64, Uintptr,
          Float32, Float64}"

definition bytes_or_runes :: "rtype \<Rightarrow> bool" where
  "bytes_or_runes tp \<longleftrightarrow>
     (case tp of SliceOf e \<Rightarrow> Type_Kind e = Uint8 \<or> Type_Kind e = Int32 | _ \<Rightarrow> False)"

definition ConvertibleTo :: "rtype \<Rightarrow> rtype \<Rightarrow> bool" where
  "ConvertibleTo src dst \<longleftrightarrow>
     underlying src = underlying dst
   \<or> (int_or_float (Type_Kind src) \<and> int_or_float (Type_Kind dst))
   \<or> (Type_Kind src \<in> {Complex64, Complex128} \<and> Type_Kind dst \<in> {Complex64, Complex128})
   \<or> (case (src, dst) of (PtrTo a, PtrTo b) \<Rightarrow> underlying a = underlying b | _ \<Rightarrow> False)
   \<or> (Type_Kind dst = String
        \<and> (Type_Kind src \<in> {IntK, Int8, Int16, Int32, Int64, Uint, Uint8, Uint16, Uint32,
              Uint64, Uintptr} \<or> bytes_or_runes src))
   \<or> (Type_Kind src = String \<and> bytes_or_runes dst)"

text \<open>
  A \<^verbatim>\<open>reflect.Value\<close>: the zero Value, a value other than a pointer or a slice (its type
  and what it holds), a pointer to a value, a nil pointer (the type it would point to),
  and a slice (its element type and its header: where it starts in the backing array,
  its length and its capacity).
\<close>

datatype 'v rvalue =
    Zero
  | Val rtype 'v
  | Ref "'v rvalue"
  | NilPtr rtype
  | SliceV rtype nat nat nat

text \<open>What a call into package reflect, or the comparison closure, panics with.\<close>

datatype fn_panic =
    CannotConvert rtype rtype
  | ReflectPanic
  | NotAnInt

text \<open>\<^verbatim>\<open>Value.Type\<close> panics on the zero Value: \<open>None\<close>.\<close>

fun Value_Type :: "'v rvalue \<Rightarrow> rtype option" where
  "Value_Type Zero = None"
| "Value_Type (Val tp x) = Some tp"
| "Value_Type (Ref v) = (case Value_Type v of None \<Rightarrow> None | Some tp \<Rightarrow> Some (PtrTo tp))"
| "Value_Type (NilPtr tp) = Some (PtrTo tp)"
| "Value_Type (SliceV tp a n c) = Some (SliceOf tp)"

fun Value_Kind :: "'v rvalue \<Rightarrow> kind" where
  "Value_Kind Zero = Invalid"
| "Value_Kind (Val tp x) = Type_Kind tp"
| "Value_Kind (Ref v) = Ptr"
| "Value_Kind (NilPtr tp) = Ptr"
| "Value_Kind (SliceV tp a n c) = Slice"

text \<open>\<^verbatim>\<open>Value.Elem\<close>: what a pointer points to, the zero Value for a nil pointer.\<close>

fun Value_Elem :: "'v rvalue \<Rightarrow> fn_panic + 'v rvalue" where
  "Value_Elem (Ref v) = Inr v"
| "Value_Elem (NilPtr tp) = Inr Zero"
| "Value_Elem _ = Inl ReflectPanic"

text \<open>
  \<^verbatim>\<open>Value.Convert\<close>: it panics where the types are not convertible. Wherever the library
  calls it and it returns, what the value holds is unchanged (the kinds are equal, or the
  target is a wider type of the same numeric group). A pointer or a slice is converted to
  its own type only.
\<close>

fun Value_Convert :: "'v rvalue \<Rightarrow> rtype \<Rightarrow> fn_panic + 'v rvalue" where
  "Value_Convert Zero dst = Inl ReflectPanic"
| "Value_Convert (Val tp x) dst = (if ConvertibleTo tp dst then Inr (Val dst x) else Inl ReflectPanic)"
| "Value_Convert v dst = (if Value_Type v = Some dst then Inr v else Inl ReflectPanic)"

section \<open>reflectutil.T: the type of a comparison and the conversions to it\<close>

record T =
  T_Type :: rtype
  ptrCount :: nat

datatype error =
    UnsupportedType kind
  | ExpectedFunction
  | ExpectedTwoArguments nat
  | ExpectedSameTypes rtype rtype
  | ExpectedOneResult nat
  | ExpectedIntResult rtype
  | FunctionTypesDiffer rtype rtype
  | NotASlice rtype

text \<open>\<^verbatim>\<open>New\<close>: the loop strips the pointers and counts them.\<close>

fun New_loop :: "rtype \<Rightarrow> nat \<Rightarrow> error + T" where
  "New_loop (PtrTo e) c = New_loop e (c + 1)"
| "New_loop (SliceOf e) c =
     (if Type_Kind e = Uint8 then Inr \<lparr>T_Type = SliceOf e, ptrCount = c\<rparr>
      else Inl (UnsupportedType Slice))"
| "New_loop tp c =
     (if Type_Kind tp \<in> {Array, Map, Func} then Inl (UnsupportedType (Type_Kind tp))
      else Inr \<lparr>T_Type = tp, ptrCount = c\<rparr>)"

definition New :: "rtype \<Rightarrow> error + T" where
  "New tp = New_loop tp 0"

datatype numKind = numNot | numInt | numUint | numFloat | numComplex

fun numKindOf :: "kind \<Rightarrow> numKind" where
  "numKindOf IntK = numInt" | "numKindOf Int8 = numInt" | "numKindOf Int16 = numInt"
| "numKindOf Int32 = numInt" | "numKindOf Int64 = numInt"
| "numKindOf Uint = numUint" | "numKindOf Uint8 = numUint" | "numKindOf Uint16 = numUint"
| "numKindOf Uint32 = numUint" | "numKindOf Uint64 = numUint"
| "numKindOf Float32 = numFloat" | "numKindOf Float64 = numFloat"
| "numKindOf Complex64 = numFloat" | "numKindOf Complex128 = numFloat"
| "numKindOf _ = numNot"

definition kindConversionAllowed :: "rtype \<Rightarrow> rtype \<Rightarrow> bool" where
  "kindConversionAllowed src dst \<longleftrightarrow>
     (Type_Kind src = Type_Kind dst \<and> (Type_Kind dst \<noteq> Struct \<or> ConvertibleTo src dst))
   \<or> (let srcKindGroup = numKindOf (Type_Kind src);
           dstKindGroup = numKindOf (Type_Kind dst)
       in srcKindGroup \<noteq> numNot \<and> srcKindGroup = dstKindGroup
          \<and> Type_Bits src \<le> Type_Bits dst)"

text \<open>\<^verbatim>\<open>ptrTo\<close> reads the type of its argument, which panics on the zero Value.\<close>

fun ptrTo :: "'v rvalue \<Rightarrow> fn_panic + 'v rvalue" where
  "ptrTo Zero = Inl ReflectPanic"
| "ptrTo v = Inr (Ref v)"

fun ptrTo_times :: "nat \<Rightarrow> 'v rvalue \<Rightarrow> fn_panic + 'v rvalue" where
  "ptrTo_times 0 v = Inr v"
| "ptrTo_times (Suc n) v = (case ptrTo v of Inl p \<Rightarrow> Inl p | Inr w \<Rightarrow> ptrTo_times n w)"

text \<open>
  The loop of \<^verbatim>\<open>convert\<close>. The value is optional as in the source (\<^verbatim>\<open>Check\<close> passes
  nil); the result is \<^verbatim>\<open>ok\<close> and the value as the loop leaves it.
\<close>

fun convert_loop :: "rtype \<Rightarrow> rtype \<Rightarrow> 'v rvalue option \<Rightarrow> fn_panic + bool \<times> 'v rvalue option" where
  "convert_loop dst src v =
     (if src = dst then Inr (True, v)
      else if kindConversionAllowed src dst then
        (case v of
           None \<Rightarrow> Inr (True, None)
         | Some x \<Rightarrow> (case Value_Convert x dst of Inl p \<Rightarrow> Inl p | Inr y \<Rightarrow> Inr (True, Some y)))
      else
        (case src of
           PtrTo e \<Rightarrow>
             (case v of
                None \<Rightarrow> convert_loop dst e None
              | Some x \<Rightarrow> (case Value_Elem x of Inl p \<Rightarrow> Inl p | Inr y \<Rightarrow> convert_loop dst e (Some y)))
         | _ \<Rightarrow> Inr (False, v)))"

declare convert_loop.simps [simp del]

text \<open>\<^verbatim>\<open>convert\<close>: the loop, then the deferred function that wraps a converted value.\<close>

definition convert :: "T \<Rightarrow> rtype \<Rightarrow> 'v rvalue option \<Rightarrow> fn_panic + bool \<times> 'v rvalue option" where
  "convert t src v =
     (case convert_loop (T_Type t) src v of
        Inl p \<Rightarrow> Inl p
      | Inr (ok, w) \<Rightarrow>
          (case w of
             None \<Rightarrow> Inr (ok, None)
           | Some x \<Rightarrow>
               if \<not> ok then Inr (ok, Some x)
               else (case ptrTo_times (ptrCount t) x of Inl p \<Rightarrow> Inl p | Inr y \<Rightarrow> Inr (ok, Some y))))"

text \<open>\<^verbatim>\<open>Check\<close> converts no value, so nothing in it can panic.\<close>

definition Check :: "T \<Rightarrow> rtype \<Rightarrow> bool" where
  "Check t tp = (case convert t tp (None :: unit rvalue option) of Inl p \<Rightarrow> False | Inr (ok, w) \<Rightarrow> ok)"

text \<open>
  \<^verbatim>\<open>Convert\<close> reads the type of the value twice: before the conversion, and in the
  message of its own panic, where the value is what the loop left (the zero Value after
  a nil pointer was followed, on which \<^verbatim>\<open>Type\<close> panics inside reflect).
\<close>

definition Convert :: "T \<Rightarrow> 'v rvalue \<Rightarrow> fn_panic + 'v rvalue" where
  "Convert t v =
     (case Value_Type v of
        None \<Rightarrow> Inl ReflectPanic
      | Some tp \<Rightarrow>
          (case convert t tp (Some v) of
             Inl p \<Rightarrow> Inl p
           | Inr (ok, w) \<Rightarrow>
               (case w of
                  None \<Rightarrow> Inl ReflectPanic
                | Some y \<Rightarrow>
                    if \<not> ok then
                      (case Value_Type y of
                         None \<Rightarrow> Inl ReflectPanic
                       | Some ty \<Rightarrow> Inl (CannotConvert ty (T_Type t)))
                    else Inr y)))"

section \<open>Comparison functions: Fn, Fns and By\<close>

text \<open>
  What every operation of the library may panic with. A panic raised while two values
  are compared is kept apart (\<open>InCompare\<close>), so that no comparison can fake the panics
  of the operations themselves.
\<close>

datatype panic =
    NoFunctions
  | InvalidFunction nat error
  | PanicError error
  | BadValueType rtype
  | WrongSliceType rtype
  | KOutOfBounds int int
  | IndexOutOfRange
  | SliceBounds
  | ZeroValue
  | InCompare fn_panic

text \<open>
  \<open>Fn_fn\<close> is the closure \<^verbatim>\<open>fn\<close> of the source, \<open>Fn_t\<close> its field \<^verbatim>\<open>t\<close>. The closure
  converts both operands and calls the function, so it can panic.
\<close>

record 'v Fn =
  Fn_fn :: "'v rvalue \<Rightarrow> 'v rvalue \<Rightarrow> fn_panic + go_int"
  Fn_t :: T

type_synonym 'v Fns = "'v Fn list"

text \<open>
  An argument of \<^verbatim>\<open>By\<close>: a value that is no function (its type), or a function with its
  parameter types, its result types and what it computes on two arguments.
\<close>

datatype 'v fnarg =
    NotFunc rtype
  | GoFunc "rtype list" "rtype list" "'v rvalue \<Rightarrow> 'v rvalue \<Rightarrow> go_int"

text \<open>
  \<^verbatim>\<open>f.Call(...)[0].Interface().(int)\<close>: reflect panics on a zero Value argument, and the
  type assertion panics on a result whose type is not the predeclared \<^verbatim>\<open>int\<close>.
\<close>

definition Call :: "rtype \<Rightarrow> ('v rvalue \<Rightarrow> 'v rvalue \<Rightarrow> go_int) \<Rightarrow> 'v rvalue \<Rightarrow> 'v rvalue \<Rightarrow> fn_panic + go_int" where
  "Call out f a b =
     (if a = Zero \<or> b = Zero then Inl ReflectPanic
      else if out \<noteq> Named ''int'' IntK then Inl NotAnInt
      else Inr (f a b))"

definition newFn :: "'v fnarg \<Rightarrow> error + 'v Fn" where
  "newFn f =
     (case f of
        NotFunc tp \<Rightarrow> Inl ExpectedFunction
      | GoFunc ins outs body \<Rightarrow>
          if length ins \<noteq> 2 then Inl (ExpectedTwoArguments (length ins))
          else (case New (ins ! 0) of
            Inl e \<Rightarrow> Inl e
          | Inr t1 \<Rightarrow>
              (case New (ins ! 1) of
                 Inl e \<Rightarrow> Inl e
               | Inr t2 \<Rightarrow>
                   if T_Type t1 \<noteq> T_Type t2 then Inl (ExpectedSameTypes (T_Type t1) (T_Type t2))
                   else if length outs \<noteq> 1 then Inl (ExpectedOneResult (length outs))
                   else if Type_Kind (outs ! 0) \<noteq> IntK then Inl (ExpectedIntResult (outs ! 0))
                   else Inr \<lparr>Fn_fn = (\<lambda>lhs rhs.
                                case Convert t1 lhs of
                                  Inl p \<Rightarrow> Inl p
                                | Inr a \<Rightarrow>
                                    (case Convert t2 rhs of
                                       Inl p \<Rightarrow> Inl p
                                     | Inr b \<Rightarrow> Call (outs ! 0) body a b)),
                             Fn_t = t1\<rparr>)))"

text \<open>\<^verbatim>\<open>compare\<close>: the functions in order, as long as they return 0.\<close>

fun compare :: "'v Fns \<Rightarrow> 'v rvalue \<Rightarrow> 'v rvalue \<Rightarrow> fn_panic + go_int" where
  "compare [] lhs rhs = Inr 0"
| "compare (f # fns) lhs rhs =
     (case Fn_fn f lhs rhs of
        Inl p \<Rightarrow> Inl p
      | Inr cmp \<Rightarrow> if cmp \<noteq> 0 then Inr cmp else compare fns lhs rhs)"

text \<open>\<^verbatim>\<open>check\<close> reads \<^verbatim>\<open>fns[0]\<close>, which panics on an empty list.\<close>

definition check :: "'v Fns \<Rightarrow> rtype \<Rightarrow> panic + bool" where
  "check fns tp = (case fns of [] \<Rightarrow> Inl IndexOutOfRange | f # _ \<Rightarrow> Inr (Check (Fn_t f) tp))"

definition append_fn :: "'v Fns \<Rightarrow> 'v Fn \<Rightarrow> panic + 'v Fns" where
  "append_fn fns f =
     (if length fns \<noteq> 0 then
        (case check fns (T_Type (Fn_t f)) of
           Inl p \<Rightarrow> Inl p
         | Inr ok \<Rightarrow>
             if \<not> ok then Inl (PanicError (FunctionTypesDiffer (T_Type (Fn_t (hd fns))) (T_Type (Fn_t f))))
             else Inr (fns @ [f]))
      else Inr (fns @ [f]))"

fun By_loop :: "'v Fns \<Rightarrow> nat \<Rightarrow> 'v fnarg list \<Rightarrow> panic + 'v Fns" where
  "By_loop cmpFns i [] = Inr cmpFns"
| "By_loop cmpFns i (f # fs) =
     (case newFn f of
        Inl e \<Rightarrow> Inl (InvalidFunction i e)
      | Inr cmpFn \<Rightarrow>
          (case append_fn cmpFns cmpFn of
             Inl p \<Rightarrow> Inl p
           | Inr cmpFns' \<Rightarrow> By_loop cmpFns' (i + 1) fs))"

definition By :: "'v fnarg list \<Rightarrow> panic + 'v Fns" where
  "By fns = (if length fns = 0 then Inl NoFunctions else By_loop [] 0 fns)"

definition Reversed :: "'v Fns \<Rightarrow> 'v Fns" where
  "Reversed fns =
     map (\<lambda>original.
            \<lparr>Fn_fn = (\<lambda>lhs rhs. case Fn_fn original lhs rhs of Inl p \<Rightarrow> Inl p | Inr c \<Rightarrow> Inr (- c)),
             Fn_t = Fn_t original\<rparr>) fns"

definition mustValue :: "'v Fns \<Rightarrow> 'v rvalue \<Rightarrow> panic + 'v rvalue" where
  "mustValue fns v =
     (case Value_Type v of
        None \<Rightarrow> Inl ZeroValue
      | Some tp \<Rightarrow>
          (case check fns tp of
             Inl p \<Rightarrow> Inl p
           | Inr ok \<Rightarrow> if \<not> ok then Inl (BadValueType tp) else Inr v))"

section \<open>Condition\<close>

record 'v Condition =
  Condition_Fns :: "'v Fns"
  lhs :: "'v rvalue"

definition Is :: "'v Fns \<Rightarrow> 'v rvalue \<Rightarrow> panic + 'v Condition" where
  "Is fns l = (case mustValue fns l of Inl p \<Rightarrow> Inl p | Inr v \<Rightarrow> Inr \<lparr>Condition_Fns = fns, lhs = v\<rparr>)"

text \<open>
  The six tests differ in the relation only: each checks the right operand, compares,
  and tests the sign of the result.
\<close>

definition Condition_compare :: "'v Condition \<Rightarrow> 'v rvalue \<Rightarrow> panic + go_int" where
  "Condition_compare c r =
     (case mustValue (Condition_Fns c) r of
        Inl p \<Rightarrow> Inl p
      | Inr v \<Rightarrow> (case compare (Condition_Fns c) (lhs c) v of Inl p \<Rightarrow> Inl (InCompare p) | Inr x \<Rightarrow> Inr x))"

definition Equal :: "'v Condition \<Rightarrow> 'v rvalue \<Rightarrow> panic + bool" where
  "Equal c r = (case Condition_compare c r of Inl p \<Rightarrow> Inl p | Inr x \<Rightarrow> Inr (x = 0))"

definition NotEqual :: "'v Condition \<Rightarrow> 'v rvalue \<Rightarrow> panic + bool" where
  "NotEqual c r = (case Condition_compare c r of Inl p \<Rightarrow> Inl p | Inr x \<Rightarrow> Inr (x \<noteq> 0))"

definition Greater :: "'v Condition \<Rightarrow> 'v rvalue \<Rightarrow> panic + bool" where
  "Greater c r = (case Condition_compare c r of Inl p \<Rightarrow> Inl p | Inr x \<Rightarrow> Inr (sint x > 0))"

definition GreaterEqual :: "'v Condition \<Rightarrow> 'v rvalue \<Rightarrow> panic + bool" where
  "GreaterEqual c r = (case Condition_compare c r of Inl p \<Rightarrow> Inl p | Inr x \<Rightarrow> Inr (sint x \<ge> 0))"

definition Less :: "'v Condition \<Rightarrow> 'v rvalue \<Rightarrow> panic + bool" where
  "Less c r = (case Condition_compare c r of Inl p \<Rightarrow> Inl p | Inr x \<Rightarrow> Inr (sint x < 0))"

definition LessEqual :: "'v Condition \<Rightarrow> 'v rvalue \<Rightarrow> panic + bool" where
  "LessEqual c r = (case Condition_compare c r of Inl p \<Rightarrow> Inl p | Inr x \<Rightarrow> Inr (sint x \<le> 0))"

section \<open>reflectutil.Slice: a window on the caller's slice\<close>

text \<open>
  The elements live in a store, the backing array, which every view shares. A view holds
  the embedded \<^verbatim>\<open>reflect.Value\<close> (the element type and the header \<open>Value_start\<close>,
  \<open>Value_len\<close>, \<open>Value_cap\<close>), the closure \<^verbatim>\<open>swap\<close>, given by the slice
  \<^verbatim>\<open>reflect.Swapper\<close> was called on (\<open>swap_start\<close>, \<open>swap_len\<close>), and \<^verbatim>\<open>swapOffset\<close>.
\<close>

record Slice =
  Value_elem :: rtype
  Value_start :: nat
  Value_len :: nat
  Value_cap :: nat
  swap_start :: nat
  swap_len :: nat
  swapOffset :: int

text \<open>
  \<^verbatim>\<open>getSliceValue\<close> follows pointers down to a slice. A nil pointer leads to the zero
  Value, whose kind is Invalid.
\<close>

fun getSliceValue :: "'v rvalue \<Rightarrow> 'v rvalue option" where
  "getSliceValue (SliceV tp a n c) = Some (SliceV tp a n c)"
| "getSliceValue (Ref v) = getSliceValue v"
| "getSliceValue _ = None"

text \<open>
  \<^verbatim>\<open>NewSlice\<close> returns an error for what is not a slice. The message of the error holds
  the type of the argument: on the zero Value \<^verbatim>\<open>Type\<close> panics inside reflect, and no
  error is returned.
\<close>

definition NewSlice :: "'v rvalue \<Rightarrow> panic + (error + Slice)" where
  "NewSlice sl =
     (case getSliceValue sl of
        Some (SliceV tp a n c) \<Rightarrow>
          Inr (Inr \<lparr>Value_elem = tp, Value_start = a, Value_len = n, Value_cap = c,
                    swap_start = a, swap_len = n, swapOffset = 0\<rparr>)
      | _ \<Rightarrow>
          (case Value_Type sl of
             None \<Rightarrow> Inl ZeroValue
           | Some tp \<Rightarrow> Inr (Inl (NotASlice tp))))"

definition Slice_T :: "Slice \<Rightarrow> rtype" where
  "Slice_T s = Value_elem s"

definition Len :: "Slice \<Rightarrow> int" where
  "Len s = int (Value_len s)"

text \<open>
  \<^verbatim>\<open>Index\<close> returns a Value that refers to the element in the backing array, not a copy:
  the model returns the element's place in the store, read when the Value is used.
\<close>

definition Index :: "Slice \<Rightarrow> int \<Rightarrow> panic + nat" where
  "Index s i = (if 0 \<le> i \<and> i < Len s then Inr (Value_start s + nat i) else Inl IndexOutOfRange)"

definition Slice_Slice :: "Slice \<Rightarrow> int \<Rightarrow> int \<Rightarrow> panic + Slice" where
  "Slice_Slice s i j =
     (if i < 0 \<or> j < i \<or> j > int (Value_cap s) then Inl SliceBounds
      else Inr (s\<lparr>Value_start := Value_start s + nat i, Value_len := nat (j - i),
                 Value_cap := Value_cap s - nat i, swapOffset := swapOffset s + i\<rparr>))"

definition Slice_Slice3 :: "Slice \<Rightarrow> int \<Rightarrow> int \<Rightarrow> int \<Rightarrow> panic + Slice" where
  "Slice_Slice3 s i j k =
     (if i < 0 \<or> j < i \<or> k < j \<or> k > int (Value_cap s) then Inl SliceBounds
      else Inr (s\<lparr>Value_start := Value_start s + nat i, Value_len := nat (j - i),
                 Value_cap := nat (k - i), swapOffset := swapOffset s + i\<rparr>))"

text \<open>
  The function \<^verbatim>\<open>reflect.Swapper\<close> returns for a slice of length \<open>n\<close> that starts at
  \<open>a\<close>: it panics on an index outside the slice, and swaps two elements in place.
\<close>

definition Swapper :: "nat \<Rightarrow> nat \<Rightarrow> int \<Rightarrow> int \<Rightarrow> 'a list \<Rightarrow> (panic + unit) \<times> 'a list" where
  "Swapper a n i j st =
     (if 0 \<le> i \<and> i < int n \<and> 0 \<le> j \<and> j < int n
      then (Inr (), st[a + nat i := st ! (a + nat j), a + nat j := st ! (a + nat i)])
      else (Inl IndexOutOfRange, st))"

definition Swap :: "Slice \<Rightarrow> int \<Rightarrow> int \<Rightarrow> 'a list \<Rightarrow> (panic + unit) \<times> 'a list" where
  "Swap s i j st = Swapper (swap_start s) (swap_len s) (i + swapOffset s) (j + swapOffset s) st"

definition mustSlice :: "'v Fns \<Rightarrow> 'v rvalue \<Rightarrow> panic + Slice" where
  "mustSlice fns sl =
     (case NewSlice sl of
        Inl p \<Rightarrow> Inl p
      | Inr (Inl e) \<Rightarrow> Inl (PanicError e)
      | Inr (Inr s) \<Rightarrow>
          (case check fns (Slice_T s) of
             Inl p \<Rightarrow> Inl p
           | Inr ok \<Rightarrow> if \<not> ok then Inl (WrongSliceType (Slice_T s)) else Inr s))"

text \<open>
  A chain of narrowings, for the invariant of the views: \<open>narrowed\<close> applies them one
  after the other, as \<^verbatim>\<open>s.Slice(1, 3).Slice3(0, 2, 2)\<close> does.
\<close>

datatype narrowing = Narrow int int | Narrow3 int int int

fun narrow_lo :: "narrowing \<Rightarrow> int" where
  "narrow_lo (Narrow i j) = i"
| "narrow_lo (Narrow3 i j k) = i"

fun narrowed :: "Slice \<Rightarrow> narrowing list \<Rightarrow> panic + Slice" where
  "narrowed s [] = Inr s"
| "narrowed s (Narrow i j # ns) =
     (case Slice_Slice s i j of Inl p \<Rightarrow> Inl p | Inr s' \<Rightarrow> narrowed s' ns)"
| "narrowed s (Narrow3 i j k # ns) =
     (case Slice_Slice3 s i j k of Inl p \<Rightarrow> Inl p | Inr s' \<Rightarrow> narrowed s' ns)"

section \<open>Search\<close>

text \<open>
  The loop of \<^verbatim>\<open>Search\<close> has no bound of its own: \<open>None\<close> is a call that never returns.
  \<^verbatim>\<open>int(uint(start+end) >> 1)\<close> is the sum taken as an unsigned 64-bit number and halved.
\<close>

partial_function (option) Search_loop ::
  "'v Fns \<Rightarrow> Slice \<Rightarrow> 'v rvalue \<Rightarrow> 'v rvalue list \<Rightarrow> int \<Rightarrow> int \<Rightarrow> (panic + int) option" where
  "Search_loop fns s v st start endx =
     (let i = ((start + endx) mod 2 ^ 64) div 2 in
      case Index s i of
        Inl p \<Rightarrow> Some (Inl p)
      | Inr x \<Rightarrow>
          (case compare fns (st ! x) v of
             Inl p \<Rightarrow> Some (Inl (InCompare p))
           | Inr cmp \<Rightarrow>
               if cmp = 0 then Some (Inr i)
               else if start = endx then Some (Inr (- 1))
               else if sint cmp < 0 then Search_loop fns s v st (i + 1) endx
               else Search_loop fns s v st start (i - 1)))"

definition Search :: "'v Fns \<Rightarrow> 'v rvalue \<Rightarrow> 'v rvalue \<Rightarrow> 'v rvalue list \<Rightarrow> (panic + int) option" where
  "Search fns sl val st =
     (case mustSlice fns sl of
        Inl p \<Rightarrow> Some (Inl p)
      | Inr s \<Rightarrow>
          (case mustValue fns val of
             Inl p \<Rightarrow> Some (Inl p)
           | Inr v \<Rightarrow>
               let start = 0; endx = Len s - 1 in
               if start > endx then Some (Inr (- 1))
               else Search_loop fns s v st start endx))"

section \<open>Select\<close>

text \<open>
  Every function that moves elements takes the store and returns it with its result, also
  when it panics: what was moved before the panic stays moved. The loops are recursive
  functions, each with the measure that shows it ends.

  The indices are integers: on a slice of \<open>n\<close> elements no sum or difference the source
  computes is below -1 or above \<open>n + 4\<close>, so that none leaves the range of \<^verbatim>\<open>int\<close> for
  a slice of fewer than \<open>2\<^sup>6\<^sup>3 - 5\<close> elements.

  \<^verbatim>\<open>sortSmallSlice\<close>: the inner loop moves the element at \<open>j\<close> down while its left
  neighbour compares greater; the outer loop does so for every index from 1.
\<close>

function sortSmallSlice_inner :: "'v Fns \<Rightarrow> Slice \<Rightarrow> int \<Rightarrow> 'v rvalue list \<Rightarrow> (panic + unit) \<times> 'v rvalue list" where
  "sortSmallSlice_inner fns s j st =
     (if j > 0 then
        (case Index s (j - 1) of
           Inl p \<Rightarrow> (Inl p, st)
         | Inr a \<Rightarrow>
             (case Index s j of
                Inl p \<Rightarrow> (Inl p, st)
              | Inr b \<Rightarrow>
                  (case compare fns (st ! a) (st ! b) of
                     Inl p \<Rightarrow> (Inl (InCompare p), st)
                   | Inr cmp \<Rightarrow>
                       if sint cmp > 0 then
                         (case Swap s (j - 1) j st of
                            (Inl p, st') \<Rightarrow> (Inl p, st')
                          | (Inr u, st') \<Rightarrow> sortSmallSlice_inner fns s (j - 1) st')
                       else (Inr (), st))))
      else (Inr (), st))"
  by pat_completeness auto
termination
  by (relation "measure (\<lambda>(fns, s, j, st). nat j)") auto

function sortSmallSlice_outer :: "'v Fns \<Rightarrow> Slice \<Rightarrow> int \<Rightarrow> 'v rvalue list \<Rightarrow> (panic + unit) \<times> 'v rvalue list" where
  "sortSmallSlice_outer fns s i st =
     (if i < Len s then
        (case sortSmallSlice_inner fns s i st of
           (Inl p, st') \<Rightarrow> (Inl p, st')
         | (Inr u, st') \<Rightarrow> sortSmallSlice_outer fns s (i + 1) st')
      else (Inr (), st))"
  by pat_completeness auto
termination
  by (relation "measure (\<lambda>(fns, s, i, st). nat (Len s - i))") auto

definition sortSmallSlice :: "'v Fns \<Rightarrow> Slice \<Rightarrow> 'v rvalue list \<Rightarrow> (panic + unit) \<times> 'v rvalue list" where
  "sortSmallSlice fns s st = sortSmallSlice_outer fns s 1 st"

text \<open>
  \<^verbatim>\<open>partition\<close> (written \<open>Fns_partition\<close>: \<open>partition\<close> is a function of HOL's lists).
  The variable \<^verbatim>\<open>pivot\<close> of the source is the Value \<^verbatim>\<open>s.Index(n - 1)\<close>, which refers
  to the last place of the window: the model keeps the place and reads the store at it
  in every comparison.
\<close>

function partition_loop :: "'v Fns \<Rightarrow> Slice \<Rightarrow> nat \<Rightarrow> int \<Rightarrow> int \<Rightarrow> int \<Rightarrow> 'v rvalue list \<Rightarrow> (panic + int) \<times> 'v rvalue list" where
  "partition_loop fns s pivot n i cursor st =
     (if i < n - 1 then
        (case Index s i of
           Inl p \<Rightarrow> (Inl p, st)
         | Inr x \<Rightarrow>
             (case compare fns (st ! x) (st ! pivot) of
                Inl p \<Rightarrow> (Inl (InCompare p), st)
              | Inr cmp \<Rightarrow>
                  if sint cmp < 0 then
                    (case Swap s cursor i st of
                       (Inl p, st') \<Rightarrow> (Inl p, st')
                     | (Inr u, st') \<Rightarrow> partition_loop fns s pivot n (i + 1) (cursor + 1) st')
                  else partition_loop fns s pivot n (i + 1) cursor st))
      else (Inr cursor, st))"
  by pat_completeness auto
termination
  by (relation "measure (\<lambda>(fns, s, pivot, n, i, cursor, st). nat (n - 1 - i))") auto

definition Fns_partition :: "'v Fns \<Rightarrow> Slice \<Rightarrow> int \<Rightarrow> 'v rvalue list \<Rightarrow> (panic + int) \<times> 'v rvalue list" where
  "Fns_partition fns s p st =
     (let n = Len s in
      case Swap s p (n - 1) st of
        (Inl e, st1) \<Rightarrow> (Inl e, st1)
      | (Inr u, st1) \<Rightarrow>
          (case Index s (n - 1) of
             Inl e \<Rightarrow> (Inl e, st1)
           | Inr pivot \<Rightarrow>
               (case partition_loop fns s pivot n 0 0 st1 of
                  (Inl e, st2) \<Rightarrow> (Inl e, st2)
                | (Inr cursor, st2) \<Rightarrow>
                    (case Swap s cursor (n - 1) st2 of
                       (Inl e, st3) \<Rightarrow> (Inl e, st3)
                     | (Inr u, st3) \<Rightarrow> (Inr cursor, st3)))))"

text \<open>
  \<^verbatim>\<open>pivot\<close> (written \<open>Fns_pivot\<close>, its local variables keep their names). The inner
  loop sorts each group of five and moves its median to the front; the indices it
  divides are not negative, where Go's division and \<open>div\<close> agree.
\<close>

definition minInt :: "int \<Rightarrow> int \<Rightarrow> int" where
  "minInt a b = (if a < b then a else b)"

function pivot_groups :: "'v Fns \<Rightarrow> Slice \<Rightarrow> int \<Rightarrow> int \<Rightarrow> int \<Rightarrow> 'v rvalue list \<Rightarrow> (panic + int) \<times> 'v rvalue list" where
  "pivot_groups fns s n left medLen st =
     (if left < n then
        (let right = minInt (left + 5) n in
         case Slice_Slice s left right of
           Inl p \<Rightarrow> (Inl p, st)
         | Inr g \<Rightarrow>
             (case sortSmallSlice fns g st of
                (Inl p, st1) \<Rightarrow> (Inl p, st1)
              | (Inr u, st1) \<Rightarrow>
                  (case Swap s ((left + right - 1) div 2) medLen st1 of
                     (Inl p, st2) \<Rightarrow> (Inl p, st2)
                   | (Inr u, st2) \<Rightarrow> pivot_groups fns s n (left + 5) (medLen + 1) st2)))
      else (Inr medLen, st))"
  by pat_completeness auto
termination
  by (relation "measure (\<lambda>(fns, s, n, left, medLen, st). nat (n - left))") auto

declare sortSmallSlice_inner.simps [simp del] sortSmallSlice_outer.simps [simp del]
  partition_loop.simps [simp del] pivot_groups.simps [simp del]

text \<open>The inner loop counts one median for every group, which bounds the next window.\<close>

lemma pivot_groups_medLen:
  "pivot_groups fns s n left medLen st = (Inr m, st') \<Longrightarrow> 0 \<le> left \<Longrightarrow> 0 \<le> medLen \<Longrightarrow>
   0 \<le> m \<and> 5 * m \<le> 5 * medLen + (if left < n then n - left + 4 else 0)"
proof (induction fns s n left medLen st rule: pivot_groups.induct)
  case (1 fns s n left medLen st)
  show ?case
  proof (cases "left < n")
    case False
    with "1.prems"(1) have "m = medLen" by (subst (asm) pivot_groups.simps) simp
    with False "1.prems" show ?thesis by simp
  next
    case True
    with "1.prems"(1) obtain g st1 st2 u1 u2 where
      g: "Slice_Slice s left (minInt (left + 5) n) = Inr g"
      and s1: "sortSmallSlice fns g st = (Inr u1, st1)"
      and s2: "Swap s ((left + minInt (left + 5) n - 1) div 2) medLen st1 = (Inr u2, st2)"
      and r: "pivot_groups fns s n (left + 5) (medLen + 1) st2 = (Inr m, st')"
      by (subst (asm) pivot_groups.simps) (auto simp: Let_def split: sum.splits prod.splits)
    have "0 \<le> m \<and> 5 * m \<le> 5 * (medLen + 1) + (if left + 5 < n then n - (left + 5) + 4 else 0)"
      using "1.IH" [OF True refl g s1 [symmetric] refl s2 [symmetric] refl r] "1.prems"(2,3) by simp
    with True show ?thesis by (auto split: if_splits)
  qed
qed

function Fns_pivot :: "'v Fns \<Rightarrow> Slice \<Rightarrow> 'v rvalue list \<Rightarrow> (panic + unit) \<times> 'v rvalue list" where
  "Fns_pivot fns s st =
     (if Len s > 0 then
        (let n = Len s in
         if n \<le> 5 then
           (case sortSmallSlice fns s st of
              (Inl p, st1) \<Rightarrow> (Inl p, st1)
            | (Inr u, st1) \<Rightarrow> Swap s ((n - 1) div 2) 0 st1)
         else
           (case pivot_groups fns s n 0 0 st of
              (Inl p, st1) \<Rightarrow> (Inl p, st1)
            | (Inr medLen, st1) \<Rightarrow>
                (case Slice_Slice s 0 medLen of
                   Inl p \<Rightarrow> (Inl p, st1)
                 | Inr s' \<Rightarrow> Fns_pivot fns s' st1)))
      else (Inr (), st))"
  by pat_completeness auto
termination
proof (relation "measure (\<lambda>(fns, s, st). Value_len s)", goal_cases)
  case 1
  show ?case by simp
next
  case (2 fns s st n r st1 medLen s')
  then have g: "pivot_groups fns s n 0 0 st = (Inr medLen, st1)" by simp
  from pivot_groups_medLen [OF g] 2
  have "0 \<le> medLen \<and> 5 * medLen \<le> n + 4" by (auto split: if_splits)
  moreover from 2 have "Value_len s' = nat medLen" "n = int (Value_len s)" "n > 5"
    by (auto simp: Slice_Slice_def Len_def split: if_splits)
  ultimately show ?case by simp arith
qed

declare Fns_pivot.simps [simp del]

text \<open>The cursor moves at most once for every element scanned.\<close>

lemma partition_loop_cursor:
  "partition_loop fns s pivot n i cursor st = (Inr c, st') \<Longrightarrow>
   cursor \<le> c \<and> c \<le> cursor + (if i < n - 1 then n - 1 - i else 0)"
proof (induction fns s pivot n i cursor st rule: partition_loop.induct)
  case (1 fns s pivot n i cursor st)
  show ?case
  proof (cases "i < n - 1")
    case False
    with "1.prems" have "c = cursor" by (subst (asm) partition_loop.simps) simp
    with False show ?thesis by simp
  next
    case True
    from "1.prems" True obtain x cmp where x: "Index s i = Inr x"
      and c: "compare fns (st ! x) (st ! pivot) = Inr cmp"
      by (subst (asm) partition_loop.simps) (auto split: sum.splits)
    show ?thesis
    proof (cases "sint cmp < 0")
      case neg: True
      from "1.prems" True x c neg obtain u st1 where sw: "Swap s cursor i st = (Inr u, st1)"
        and r: "partition_loop fns s pivot n (i + 1) (cursor + 1) st1 = (Inr c, st')"
        by (subst (asm) partition_loop.simps) (auto split: sum.splits prod.splits)
      from "1.IH"(1) [OF True x c neg sw [symmetric] refl r] True show ?thesis
        by (auto split: if_splits)
    next
      case nonneg: False
      from "1.prems" True x c nonneg
      have r: "partition_loop fns s pivot n (i + 1) cursor st = (Inr c, st')"
        by (subst (asm) partition_loop.simps) (auto split: sum.splits prod.splits)
      from "1.IH"(2) [OF True x c nonneg r] True show ?thesis
        by (auto split: if_splits)
    qed
  qed
qed

lemma Fns_partition_result:
  assumes "Fns_partition fns s p st = (Inr c, st')"
  shows "0 \<le> c \<and> c < Len s"
proof -
  from assms obtain pivot st1 where i: "Index s (Len s - 1) = Inr pivot"
    and l: "\<exists>st2. partition_loop fns s pivot (Len s) 0 0 st1 = (Inr c, st2)"
    by (auto simp: Fns_partition_def Let_def split: sum.splits prod.splits)
  from i have "0 < Len s" by (auto simp: Index_def split: if_splits)
  with l partition_loop_cursor [of fns s pivot "Len s" 0 0 st1 c] show ?thesis
    by (auto split: if_splits)
qed

text \<open>The loop of \<^verbatim>\<open>Select\<close>: every round goes on with a window that is shorter.\<close>

function Select_loop :: "'v Fns \<Rightarrow> Slice \<Rightarrow> int \<Rightarrow> 'v rvalue list \<Rightarrow> (panic + unit) \<times> 'v rvalue list" where
  "Select_loop fns s k st =
     (case Fns_pivot fns s st of
        (Inl e, st1) \<Rightarrow> (Inl e, st1)
      | (Inr u, st1) \<Rightarrow>
          (case Fns_partition fns s 0 st1 of
             (Inl e, st2) \<Rightarrow> (Inl e, st2)
           | (Inr pivot, st2) \<Rightarrow>
               if pivot = k then (Inr (), st2)
               else if pivot < k then
                 (case Slice_Slice s (pivot + 1) (Len s) of
                    Inl e \<Rightarrow> (Inl e, st2)
                  | Inr s' \<Rightarrow> Select_loop fns s' (k - (pivot + 1)) st2)
               else
                 (case Slice_Slice s 0 pivot of
                    Inl e \<Rightarrow> (Inl e, st2)
                  | Inr s' \<Rightarrow> Select_loop fns s' k st2)))"
  by pat_completeness auto
termination
proof (relation "measure (\<lambda>(fns, s, k, st). Value_len s)", goal_cases)
  case 1
  show ?case by simp
next
  case (2 fns s k st r1 st1 u r2 st2 pivot s')
  then have p: "Fns_partition fns s 0 st1 = (Inr pivot, st2)" by simp
  from 2 have "Slice_Slice s (pivot + 1) (Len s) = Inr s'" by simp
  with Fns_partition_result [OF p] show ?case
    by (auto simp: Slice_Slice_def Len_def split: if_splits)
next
  case (3 fns s k st r1 st1 u r2 st2 pivot s')
  then have p: "Fns_partition fns s 0 st1 = (Inr pivot, st2)" by simp
  from 3 have "Slice_Slice s 0 pivot = Inr s'" by simp
  with Fns_partition_result [OF p] show ?case
    by (auto simp: Slice_Slice_def Len_def split: if_splits)
qed

declare Select_loop.simps [simp del]

definition Select :: "'v Fns \<Rightarrow> 'v rvalue \<Rightarrow> int \<Rightarrow> 'v rvalue list \<Rightarrow> (panic + unit) \<times> 'v rvalue list" where
  "Select fns sl k st =
     (case mustSlice fns sl of
        Inl p \<Rightarrow> (Inl p, st)
      | Inr s \<Rightarrow>
          if k < 0 \<or> k \<ge> Len s then (Inl (KOutOfBounds k (Len s)), st)
          else Select_loop fns s k st)"

section \<open>An example comparator: persons by name, then by age\<close>

text \<open>
  The example of the package documentation:
  \<^verbatim>\<open>order.By(func(a, b person) int { return strings.Compare(a.name, b.name) },
            func(a, b person) int { return a.age - b.age })\<close>.
  \<^verbatim>\<open>strings.Compare\<close> orders strings byte by byte.
\<close>

record person =
  person_name :: string
  person_age :: go_int

definition personT :: rtype where
  "personT = StructT ''person'' [(''name'', Named ''string'' String), (''age'', Named ''int'' IntK)]"

fun strings_Compare :: "string \<Rightarrow> string \<Rightarrow> go_int" where
  "strings_Compare [] [] = 0"
| "strings_Compare [] (y # ys) = - 1"
| "strings_Compare (x # xs) [] = 1"
| "strings_Compare (x # xs) (y # ys) =
     (if (of_char x :: nat) < of_char y then - 1
      else if (of_char y :: nat) < of_char x then 1
      else strings_Compare xs ys)"

definition by_name :: "person rvalue \<Rightarrow> person rvalue \<Rightarrow> go_int" where
  "by_name a b =
     (case (a, b) of
        (Val ta p, Val tb q) \<Rightarrow> strings_Compare (person_name p) (person_name q)
      | _ \<Rightarrow> 0)"

definition by_age :: "person rvalue \<Rightarrow> person rvalue \<Rightarrow> go_int" where
  "by_age a b =
     (case (a, b) of (Val ta p, Val tb q) \<Rightarrow> person_age p - person_age q | _ \<Rightarrow> 0)"

definition orderPersons :: "panic + person Fns" where
  "orderPersons = By [GoFunc [personT, personT] [Named ''int'' IntK] by_name,
                      GoFunc [personT, personT] [Named ''int'' IntK] by_age]"

section \<open>An example comparator: the integers of the tests\<close>

text \<open>\<^verbatim>\<open>var intFn = By(func(a, b int) int { return a - b })\<close>, and slices of integers.\<close>

definition intT :: rtype where
  "intT = Named ''int'' IntK"

definition sub_ints :: "go_int rvalue \<Rightarrow> go_int rvalue \<Rightarrow> go_int" where
  "sub_ints a b = (case (a, b) of (Val ta x, Val tb y) \<Rightarrow> x - y | _ \<Rightarrow> 0)"

definition intFn :: "panic + go_int Fns" where
  "intFn = By [GoFunc [intT, intT] [intT] sub_ints]"

definition ints :: "int list \<Rightarrow> go_int rvalue list" where
  "ints xs = map (\<lambda>x. Val intT (word_of_int x)) xs"

section \<open>Notions the properties are stated with\<close>

text \<open>
  A pointer chain of depth \<open>n\<close> to a value, and its type; \<^verbatim>\<open>Is(l).test(r)\<close> for one of
  the six tests; a function \<^verbatim>\<open>func(a, b T) int\<close>; and what \<^verbatim>\<open>newFn\<close> makes of such a
  function when \<^verbatim>\<open>T\<close> is no pointer type.
\<close>

fun pointer_to :: "nat \<Rightarrow> 'v rvalue \<Rightarrow> 'v rvalue" where
  "pointer_to 0 v = v"
| "pointer_to (Suc n) v = Ref (pointer_to n v)"

fun pointer_type :: "nat \<Rightarrow> rtype \<Rightarrow> rtype" where
  "pointer_type 0 tp = tp"
| "pointer_type (Suc n) tp = PtrTo (pointer_type n tp)"

definition Is_then ::
  "('v Condition \<Rightarrow> 'v rvalue \<Rightarrow> panic + bool) \<Rightarrow> 'v Fns \<Rightarrow> 'v rvalue \<Rightarrow> 'v rvalue \<Rightarrow> panic + bool" where
  "Is_then test fns l r = (case Is fns l of Inl p \<Rightarrow> Inl p | Inr c \<Rightarrow> test c r)"

definition over :: "rtype \<Rightarrow> ('v rvalue \<Rightarrow> 'v rvalue \<Rightarrow> go_int) \<Rightarrow> 'v fnarg" where
  "over tp f = GoFunc [tp, tp] [Named ''int'' IntK] f"

definition fn_over :: "rtype \<Rightarrow> 'v Fn \<Rightarrow> bool" where
  "fn_over tp f \<longleftrightarrow>
     Fn_t f = \<lparr>T_Type = tp, ptrCount = 0\<rparr> \<and>
     (\<exists>body. \<forall>l r. Fn_fn f l r =
        (case Convert \<lparr>T_Type = tp, ptrCount = 0\<rparr> l of
           Inl p \<Rightarrow> Inl p
         | Inr a \<Rightarrow>
             (case Convert \<lparr>T_Type = tp, ptrCount = 0\<rparr> r of
                Inl p \<Rightarrow> Inl p
              | Inr b \<Rightarrow> Call (Named ''int'' IntK) body a b)))"

text \<open>
  The store and the views. \<open>window\<close> is what a view shows of the store: the slice as
  its holder sees it. \<open>in_store\<close> says that the slice lies in the store and that its
  length is within its capacity, as for every slice of Go. \<open>valid_view\<close> adds what
  \<^verbatim>\<open>NewSlice\<close> gives and every narrowing within the length keeps: the swap closure
  reaches every element of the window, at the offset of the view.
\<close>

definition window :: "Slice \<Rightarrow> 'a list \<Rightarrow> 'a list" where
  "window s st = take (Value_len s) (drop (Value_start s) st)"

definition in_store :: "Slice \<Rightarrow> 'a list \<Rightarrow> bool" where
  "in_store s st \<longleftrightarrow> Value_start s + Value_len s \<le> length st \<and> Value_len s \<le> Value_cap s"

definition valid_view :: "Slice \<Rightarrow> 'a list \<Rightarrow> bool" where
  "valid_view s st \<longleftrightarrow>
     Value_start s + Value_len s \<le> length st \<and> Value_len s \<le> Value_cap s
   \<and> 0 \<le> swapOffset s \<and> Value_start s = swap_start s + nat (swapOffset s)
   \<and> nat (swapOffset s) + Value_len s \<le> swap_len s"

text \<open>
  \<open>frame a n st st'\<close>: the store \<open>st'\<close> holds the elements of \<open>st\<close>, moved within the
  \<open>n\<close> places from \<open>a\<close> on only.
\<close>

definition frame :: "nat \<Rightarrow> nat \<Rightarrow> 'a list \<Rightarrow> 'a list \<Rightarrow> bool" where
  "frame a n st st' \<longleftrightarrow>
     length st' = length st \<and> mset st' = mset st
   \<and> (\<forall>p<length st. p < a \<or> a + n \<le> p \<longrightarrow> st' ! p = st ! p)"

text \<open>
  What a comparator says of two values: the comparison returns (no function panics and
  no conversion fails), and the sign of its result. \<open>returns_on\<close>: every comparison of
  two values of the set returns. \<open>consistent_on\<close>: on the set the comparator is a
  consistent three-way order, where \<open>a\<close> is below \<open>b\<close> exactly when \<open>b\<close> is above \<open>a\<close>,
  and not-above is transitive.
\<close>

definition less_by :: "'v Fns \<Rightarrow> 'v rvalue \<Rightarrow> 'v rvalue \<Rightarrow> bool" where
  "less_by fns x y \<longleftrightarrow> (case compare fns x y of Inl p \<Rightarrow> False | Inr c \<Rightarrow> sint c < 0)"

definition le_by :: "'v Fns \<Rightarrow> 'v rvalue \<Rightarrow> 'v rvalue \<Rightarrow> bool" where
  "le_by fns x y \<longleftrightarrow> (case compare fns x y of Inl p \<Rightarrow> False | Inr c \<Rightarrow> sint c \<le> 0)"

definition ge_by :: "'v Fns \<Rightarrow> 'v rvalue \<Rightarrow> 'v rvalue \<Rightarrow> bool" where
  "ge_by fns x y \<longleftrightarrow> (case compare fns x y of Inl p \<Rightarrow> False | Inr c \<Rightarrow> 0 \<le> sint c)"

definition greater_by :: "'v Fns \<Rightarrow> 'v rvalue \<Rightarrow> 'v rvalue \<Rightarrow> bool" where
  "greater_by fns x y \<longleftrightarrow> (case compare fns x y of Inl p \<Rightarrow> False | Inr c \<Rightarrow> 0 < sint c)"

definition equal_by :: "'v Fns \<Rightarrow> 'v rvalue \<Rightarrow> 'v rvalue \<Rightarrow> bool" where
  "equal_by fns x y \<longleftrightarrow> compare fns x y = Inr 0"

definition returns_on :: "'v Fns \<Rightarrow> 'v rvalue set \<Rightarrow> bool" where
  "returns_on fns X \<longleftrightarrow>
     (\<forall>a\<in>X. \<forall>b\<in>X. case compare fns a b of Inl p \<Rightarrow> False | Inr c \<Rightarrow> True)"

definition consistent_on :: "'v Fns \<Rightarrow> 'v rvalue set \<Rightarrow> bool" where
  "consistent_on fns X \<longleftrightarrow>
     returns_on fns X
   \<and> (\<forall>a\<in>X. \<forall>b\<in>X. less_by fns a b \<longleftrightarrow> greater_by fns b a)
   \<and> (\<forall>a\<in>X. \<forall>b\<in>X. \<forall>c\<in>X. le_by fns a b \<and> le_by fns b c \<longrightarrow> le_by fns a c)"

text \<open>A view whose elements the comparator compares, and one whose elements it orders.\<close>

definition ready :: "'v Fns \<Rightarrow> Slice \<Rightarrow> 'v rvalue list \<Rightarrow> bool" where
  "ready fns s st \<longleftrightarrow> valid_view s st \<and> returns_on fns (set (window s st))"

definition ordered :: "'v Fns \<Rightarrow> Slice \<Rightarrow> 'v rvalue list \<Rightarrow> bool" where
  "ordered fns s st \<longleftrightarrow> valid_view s st \<and> consistent_on fns (set (window s st))"

text \<open>
  The panics of the loops of \<^verbatim>\<open>Select\<close>: an index or a bound out of range, or a panic of
  a comparison.
\<close>

fun in_loop :: "panic \<Rightarrow> bool" where
  "in_loop IndexOutOfRange = True"
| "in_loop SliceBounds = True"
| "in_loop (InCompare q) = True"
| "in_loop _ = False"

text \<open>
  What a chain of narrowings is expected to give, stated without the views: the
  accumulated offset; whether every narrowing is within the capacity it meets (the
  capacity left by the narrowings before it); and the length and the capacity of the
  last window.
\<close>

definition narrow_off :: "narrowing list \<Rightarrow> int" where
  "narrow_off ns = sum_list (map narrow_lo ns)"

fun in_bounds :: "nat \<Rightarrow> narrowing list \<Rightarrow> bool" where
  "in_bounds c [] \<longleftrightarrow> True"
| "in_bounds c (Narrow i j # ns) \<longleftrightarrow>
     0 \<le> i \<and> i \<le> j \<and> j \<le> int c \<and> in_bounds (c - nat i) ns"
| "in_bounds c (Narrow3 i j k # ns) \<longleftrightarrow>
     0 \<le> i \<and> i \<le> j \<and> j \<le> k \<and> k \<le> int c \<and> in_bounds (nat (k - i)) ns"

fun narrowed_len :: "nat \<Rightarrow> narrowing list \<Rightarrow> nat" where
  "narrowed_len n [] = n"
| "narrowed_len n (Narrow i j # ns) = narrowed_len (nat (j - i)) ns"
| "narrowed_len n (Narrow3 i j k # ns) = narrowed_len (nat (j - i)) ns"

fun narrowed_cap :: "nat \<Rightarrow> narrowing list \<Rightarrow> nat" where
  "narrowed_cap c [] = c"
| "narrowed_cap c (Narrow i j # ns) = narrowed_cap (c - nat i) ns"
| "narrowed_cap c (Narrow3 i j k # ns) = narrowed_cap (nat (k - i)) ns"

text \<open>
  The empty interface, for a comparator \<^verbatim>\<open>func(a, b interface{}) int\<close> that calls every
  two values equal.
\<close>

definition anyT :: rtype where
  "anyT = Named ''interface {}'' Interface"

definition all_equal :: "'v rvalue \<Rightarrow> 'v rvalue \<Rightarrow> go_int" where
  "all_equal a b = 0"

section \<open>Properties of the comparison functions\<close>

lemma strings_Compare_0: "strings_Compare a b = 0 \<longleftrightarrow> a = b"
  by (induction a b rule: strings_Compare.induct) auto

lemma compare_find:
  "compare fns l r =
     (case find (\<lambda>f. Fn_fn f l r \<noteq> Inr 0) fns of None \<Rightarrow> Inr 0 | Some f \<Rightarrow> Fn_fn f l r)"
  by (induction fns) (auto split: sum.splits)

lemma compare_zero_iff:
  "compare fns l r = Inr 0 \<longleftrightarrow> list_all (\<lambda>f. Fn_fn f l r = Inr 0) fns"
  by (induction fns) (auto split: sum.splits)

lemma convert_loop_same: "convert_loop dst dst v = Inr (True, v)"
  by (subst convert_loop.simps) simp

lemma convert_same: "convert \<lparr>T_Type = tp, ptrCount = 0\<rparr> tp v = Inr (True, v)"
  by (cases v) (simp_all add: convert_def convert_loop_same)

lemma Convert_same: "Convert \<lparr>T_Type = tp, ptrCount = 0\<rparr> (Val tp x) = Inr (Val tp x)"
  by (simp add: Convert_def convert_same)

lemma Check_same: "Check \<lparr>T_Type = tp, ptrCount = 0\<rparr> tp"
  by (simp add: Check_def convert_same)

lemma New_personT: "New personT = Inr \<lparr>T_Type = personT, ptrCount = 0\<rparr>"
  by (simp add: New_def personT_def)

lemma orderPersons_compare:
  "\<exists>fns. orderPersons = Inr fns \<and>
     (\<forall>p q. compare fns (Val personT p) (Val personT q) =
        Inr (if person_name p = person_name q then person_age p - person_age q
             else strings_Compare (person_name p) (person_name q)))"
  by (simp add: orderPersons_def By_def newFn_def New_personT append_fn_def check_def Check_same
      Convert_same Call_def by_name_def by_age_def strings_Compare_0)

text \<open>
  Claim C6. \<^verbatim>\<open>compare\<close> returns what the first function, in the order of the list,
  that does not return 0 returns, and it returns 0 exactly when every function returns 0.
  For the comparator of persons by name and then by age: two persons of one name are
  ordered by the age function alone, two persons of different names by the name function
  alone.
\<close>

theorem compare_first_nonzero:
  "compare fns l r =
     (case find (\<lambda>f. Fn_fn f l r \<noteq> Inr 0) fns of None \<Rightarrow> Inr 0 | Some f \<Rightarrow> Fn_fn f l r)
   \<and> (compare fns l r = Inr 0 \<longleftrightarrow> list_all (\<lambda>f. Fn_fn f l r = Inr 0) fns)
   \<and> (\<exists>persons. orderPersons = Inr persons \<and>
        (\<forall>p q. compare persons (Val personT p) (Val personT q) =
           Inr (if person_name p = person_name q then by_age (Val personT p) (Val personT q)
                else by_name (Val personT p) (Val personT q))))"
proof -
  from orderPersons_compare obtain persons where
    "orderPersons = Inr persons \<and>
     (\<forall>p q. compare persons (Val personT p) (Val personT q) =
        Inr (if person_name p = person_name q then person_age p - person_age q
             else strings_Compare (person_name p) (person_name q)))"
    by blast
  then have "orderPersons = Inr persons \<and>
     (\<forall>p q. compare persons (Val personT p) (Val personT q) =
        Inr (if person_name p = person_name q then by_age (Val personT p) (Val personT q)
             else by_name (Val personT p) (Val personT q)))"
    by (simp add: by_name_def by_age_def)
  then show ?thesis
    using compare_find [of fns l r] compare_zero_iff [of fns l r] by blast
qed

lemma Reversed_compare:
  "compare (Reversed fns) a b = (case compare fns a b of Inl p \<Rightarrow> Inl p | Inr c \<Rightarrow> Inr (- c))"
  by (induction fns) (auto simp: Reversed_def split: sum.splits)

text \<open>
  Claim C7. Comparing with \<^verbatim>\<open>Reversed\<close> gives the negation of what the comparator
  gives (a comparison that panics still panics); the reversed list has, at each place,
  the negation of the function at that place, with its type: the order of the functions
  is kept.
\<close>

theorem Reversed_negates:
  "compare (Reversed fns) a b = (case compare fns a b of Inl p \<Rightarrow> Inl p | Inr c \<Rightarrow> Inr (- c))
   \<and> map Fn_fn (Reversed fns) =
       map (\<lambda>f x y. case Fn_fn f x y of Inl p \<Rightarrow> Inl p | Inr c \<Rightarrow> Inr (- c)) fns
   \<and> map Fn_t (Reversed fns) = map Fn_t fns"
  by (simp add: Reversed_compare) (simp add: Reversed_def comp_def)

section \<open>What Convert and NewSlice panic with\<close>

text \<open>
  A value of another type cannot be converted, and \<^verbatim>\<open>Convert\<close> panics with its message;
  after a nil pointer was followed the message itself panics, inside package reflect. What
  is not a slice makes \<^verbatim>\<open>NewSlice\<close> return an error, which \<^verbatim>\<open>mustSlice\<close> panics with;
  on the zero Value \<^verbatim>\<open>NewSlice\<close> panics itself.
\<close>

lemma Convert_failed:
  "Convert \<lparr>T_Type = intT, ptrCount = 0\<rparr> (Val (Named ''string'' String) x)
     = Inl (CannotConvert (Named ''string'' String) intT)"
  "Convert \<lparr>T_Type = intT, ptrCount = 0\<rparr> (NilPtr (Named ''string'' String)) = Inl ReflectPanic"
  by (simp_all add: Convert_def convert_def convert_loop.simps kindConversionAllowed_def intT_def)

lemma NewSlice_failed:
  "NewSlice (Val intT x) = Inr (Inl (NotASlice intT))"
  "NewSlice (NilPtr (SliceOf intT)) = Inr (Inl (NotASlice (PtrTo (SliceOf intT))))"
  "NewSlice Zero = Inl ZeroValue"
  "mustSlice fns (Val intT x) = Inl (PanicError (NotASlice intT))"
  "mustSlice fns Zero = Inl ZeroValue"
  by (simp_all add: NewSlice_def mustSlice_def)

section \<open>Which types Check accepts\<close>

text \<open>
  Claim C3. The claim does not hold of the code: \<^verbatim>\<open>numKindOf\<close> puts the complex kinds in
  the group of the floating point kinds, so \<^verbatim>\<open>Check\<close> accepts a \<^verbatim>\<open>float32\<close> where a
  \<^verbatim>\<open>complex64\<close> is expected, and a \<^verbatim>\<open>complex64\<close> where a \<^verbatim>\<open>float64\<close> is; converting
  such a value then panics inside package reflect.
\<close>

theorem Check_mixes_float_and_complex:
  "numKindOf Complex64 = numFloat
   \<and> (\<exists>t. New (Named ''complex64'' Complex64) = Inr t
          \<and> Check t (Named ''float32'' Float32)
          \<and> Convert t (Val (Named ''float32'' Float32) (1 :: nat)) = Inl ReflectPanic)
   \<and> (\<exists>t. New (Named ''float64'' Float64) = Inr t
          \<and> Check t (Named ''complex64'' Complex64))"
  by (simp add: New_def Check_def convert_def convert_loop.simps kindConversionAllowed_def
      Type_Bits_def Convert_def ConvertibleTo_def int_or_float_def bytes_or_runes_def)

section \<open>Pointers to the operands of a Condition\<close>

lemma Value_Type_pointer_to:
  "Value_Type a = Some tp \<Longrightarrow> Value_Type (pointer_to n a) = Some (pointer_type n tp)"
  by (induction n) simp_all

lemma pointer_type_neq: "Type_Kind tp \<noteq> Ptr \<Longrightarrow> pointer_type (Suc n) tp \<noteq> tp"
  by (cases tp) auto

lemma not_allowed_from_pointer:
  "Type_Kind tp \<noteq> Ptr \<Longrightarrow> \<not> kindConversionAllowed (PtrTo e) tp"
  by (simp add: kindConversionAllowed_def)

lemma convert_loop_Ref:
  "Type_Kind dst \<noteq> Ptr \<Longrightarrow>
   convert_loop dst (PtrTo e) (Some (Ref v)) = convert_loop dst e (Some v)"
  by (subst convert_loop.simps) (auto simp: not_allowed_from_pointer)

lemma convert_loop_PtrTo:
  "Type_Kind dst \<noteq> Ptr \<Longrightarrow> convert_loop dst (PtrTo e) None = convert_loop dst e None"
  by (subst convert_loop.simps) (auto simp: not_allowed_from_pointer)

lemma convert_loop_pointer_to:
  "Type_Kind tp \<noteq> Ptr \<Longrightarrow>
   convert_loop tp (pointer_type n tp) (Some (pointer_to n a)) = Inr (True, Some a)"
  by (induction n) (simp_all add: convert_loop_same convert_loop_Ref)

lemma convert_loop_pointer_type:
  "Type_Kind tp \<noteq> Ptr \<Longrightarrow>
   convert_loop tp (pointer_type n tp) (None :: unit rvalue option) = Inr (True, None)"
  by (induction n) (simp_all add: convert_loop_same convert_loop_PtrTo)

lemma Convert_pointer_to:
  "Type_Kind tp \<noteq> Ptr \<Longrightarrow> Value_Type a = Some tp \<Longrightarrow>
   Convert \<lparr>T_Type = tp, ptrCount = 0\<rparr> (pointer_to n a) = Inr a"
  by (simp add: Convert_def convert_def Value_Type_pointer_to convert_loop_pointer_to)

lemma Check_pointer_type:
  "Type_Kind tp \<noteq> Ptr \<Longrightarrow> Check \<lparr>T_Type = tp, ptrCount = 0\<rparr> (pointer_type n tp)"
  by (simp add: Check_def convert_def convert_loop_pointer_type)

lemma New_not_pointer:
  "Type_Kind tp \<noteq> Ptr \<Longrightarrow> New tp = Inr t \<Longrightarrow> t = \<lparr>T_Type = tp, ptrCount = 0\<rparr>"
  by (cases tp) (auto simp: New_def split: if_splits)

lemma newFn_over:
  "Type_Kind tp \<noteq> Ptr \<Longrightarrow> newFn (over tp f) = Inr g \<Longrightarrow> fn_over tp g"
proof -
  assume k: "Type_Kind tp \<noteq> Ptr" and n: "newFn (over tp f) = Inr g"
  from n obtain t where t: "New tp = Inr t"
    by (auto simp: newFn_def over_def split: sum.splits)
  with k have "t = \<lparr>T_Type = tp, ptrCount = 0\<rparr>" by (rule New_not_pointer)
  with n t show ?thesis
    by (auto simp: newFn_def over_def fn_over_def cong: sum.case_cong intro!: exI [of _ f])
qed

lemma By_loop_over:
  "Type_Kind tp \<noteq> Ptr \<Longrightarrow> By_loop acc i (map (over tp) fs) = Inr fns \<Longrightarrow>
   list_all (fn_over tp) acc \<Longrightarrow> list_all (fn_over tp) fns \<and> length fns = length acc + length fs"
proof (induction fs arbitrary: acc i)
  case Nil
  then show ?case by simp
next
  case (Cons f fs)
  from Cons.prems(2) obtain g acc' where g: "newFn (over tp f) = Inr g"
    and a: "append_fn acc g = Inr acc'" and r: "By_loop acc' (i + 1) (map (over tp) fs) = Inr fns"
    by (auto split: sum.splits)
  from a have acc': "acc' = acc @ [g]" by (auto simp: append_fn_def split: sum.splits if_splits)
  have "list_all (fn_over tp) acc'" using Cons.prems(1,3) g acc' newFn_over by auto
  from Cons.IH [OF Cons.prems(1) r this] acc' show ?case by simp
qed

lemma By_over:
  assumes "Type_Kind tp \<noteq> Ptr" "By (map (over tp) fs) = Inr fns"
  shows "list_all (fn_over tp) fns \<and> fns \<noteq> []"
proof -
  from assms(2) have "fs \<noteq> []" and "By_loop [] 0 (map (over tp) fs) = Inr fns"
    by (auto simp: By_def split: if_splits)
  with By_loop_over [OF assms(1), of "[]" 0 fs fns] show ?thesis by auto
qed

lemma fn_over_pointer_to:
  "Type_Kind tp \<noteq> Ptr \<Longrightarrow> fn_over tp f \<Longrightarrow> Value_Type a = Some tp \<Longrightarrow> Value_Type b = Some tp \<Longrightarrow>
   Fn_fn f (pointer_to m a) (pointer_to n b) = Fn_fn f a b"
  using Convert_pointer_to [of tp a m] Convert_pointer_to [of tp b n]
    Convert_pointer_to [of tp a 0] Convert_pointer_to [of tp b 0]
  by (auto simp: fn_over_def)

lemma compare_pointer_to:
  "Type_Kind tp \<noteq> Ptr \<Longrightarrow> list_all (fn_over tp) fns \<Longrightarrow>
   Value_Type a = Some tp \<Longrightarrow> Value_Type b = Some tp \<Longrightarrow>
   compare fns (pointer_to m a) (pointer_to n b) = compare fns a b"
  by (induction fns) (auto simp: fn_over_pointer_to split: sum.splits)

lemma mustValue_pointer_to:
  "Type_Kind tp \<noteq> Ptr \<Longrightarrow> list_all (fn_over tp) fns \<Longrightarrow> fns \<noteq> [] \<Longrightarrow> Value_Type a = Some tp \<Longrightarrow>
   mustValue fns (pointer_to n a) = Inr (pointer_to n a)"
  by (cases fns) (simp_all add: mustValue_def Value_Type_pointer_to check_def fn_over_def Check_pointer_type)

lemma Is_then_pointer_to:
  assumes "Type_Kind tp \<noteq> Ptr" "list_all (fn_over tp) fns" "fns \<noteq> []"
    and "Value_Type a = Some tp" "Value_Type b = Some tp"
    and "test \<in> {Equal, NotEqual, Greater, GreaterEqual, Less, LessEqual}"
  shows "Is_then test fns (pointer_to m a) (pointer_to n b) = Is_then test fns a b"
proof -
  have "Is fns (pointer_to k a) = Inr \<lparr>Condition_Fns = fns, lhs = pointer_to k a\<rparr>" for k
    using assms by (simp add: Is_def mustValue_pointer_to)
  note I = this this [of 0, simplified]
  have C: "Condition_compare \<lparr>Condition_Fns = fns, lhs = pointer_to m a\<rparr> (pointer_to n b)
      = Condition_compare \<lparr>Condition_Fns = fns, lhs = a\<rparr> b"
    using assms mustValue_pointer_to [of tp fns b 0]
    by (simp add: Condition_compare_def mustValue_pointer_to compare_pointer_to)
  from assms(6) show ?thesis
    by (auto simp: Is_then_def I C Equal_def NotEqual_def Greater_def GreaterEqual_def Less_def LessEqual_def)
qed

lemma By_intFn: "intFn = By (map (over intT) [sub_ints])"
  by (simp add: intFn_def over_def intT_def)

lemma New_intT: "New intT = Inr \<lparr>T_Type = intT, ptrCount = 0\<rparr>"
  by (simp add: New_def intT_def)

lemma intFn_compare:
  "\<exists>fns. intFn = Inr fns \<and> check fns intT = Inr True \<and>
     (\<forall>x y. compare fns (Val intT x) (Val intT y) = Inr (x - y))"
  by (simp add: intFn_def By_def newFn_def New_intT append_fn_def check_def Check_same
      Convert_same Call_def sub_ints_def) (simp add: intT_def)

text \<open>
  Claim C10, as it is written, does not hold of the code where \<open>T\<close> is an interface
  type. \<^verbatim>\<open>Is(a)\<close> hands \<^verbatim>\<open>a\<close> over as an \<^verbatim>\<open>interface{}\<close>, so \<^verbatim>\<open>reflect.ValueOf\<close> gives
  a Value of the dynamic type of \<^verbatim>\<open>a\<close>, which \<^verbatim>\<open>Check\<close> does not accept for \<open>T\<close>:
  \<^verbatim>\<open>Is(a)\<close> panics. \<^verbatim>\<open>Is(&a)\<close> hands over a pointer to the variable, whose
  element has the type \<open>T\<close> itself: \<^verbatim>\<open>Is(&a).Equal(&b)\<close> returns. Here \<open>T\<close> is
  \<^verbatim>\<open>interface{}\<close>, the comparator is \<^verbatim>\<open>By(func(a, b interface{}) int { return 0 })\<close>, and
  \<^verbatim>\<open>a\<close> and \<^verbatim>\<open>b\<close> hold the \<^verbatim>\<open>int\<close> 1.
\<close>

theorem interface_operands_not_transparent:
  "\<exists>fns. By [over anyT all_equal] = Inr fns
     \<and> Type_Kind anyT \<noteq> Ptr
     \<and> Is_then Equal fns (Val intT (1 :: go_int)) (Val intT 1) = Inl (BadValueType intT)
     \<and> Is fns (Val intT (1 :: go_int)) = Inl (BadValueType intT)
     \<and> Is_then Equal fns (Ref (Val anyT 1)) (Ref (Val anyT 1)) = Inr True"
  by (simp add: By_def over_def newFn_def New_def anyT_def intT_def append_fn_def
      Is_then_def Is_def mustValue_def check_def Check_def convert_def convert_loop.simps
      kindConversionAllowed_def Equal_def Condition_compare_def Convert_def Call_def
      all_equal_def)

text \<open>
  Claim C10, amended: \<open>T\<close> is neither a pointer type nor an interface type. For a
  comparator built by \<^verbatim>\<open>By\<close> from functions over such a type \<open>tp\<close>, and operands \<open>a\<close>,
  \<open>b\<close> of that type (then \<^verbatim>\<open>reflect.ValueOf\<close> gives Values of the type \<open>tp\<close>): each of
  the six tests gives on pointer chains of any depths to \<open>a\<close> and to \<open>b\<close> what it gives
  on \<open>a\<close> and \<open>b\<close> themselves, and the comparison sees the same operands.
\<close>

theorem pointer_operands_transparent:
  assumes "Type_Kind tp \<noteq> Ptr" and "Type_Kind tp \<noteq> Interface"
    and "By (map (over tp) fs) = Inr fns"
    and "Value_Type a = Some tp" and "Value_Type b = Some tp"
  shows "(\<forall>test \<in> {Equal, NotEqual, Greater, GreaterEqual, Less, LessEqual}.
            Is_then test fns (pointer_to m a) (pointer_to n b) = Is_then test fns a b)
       \<and> compare fns (pointer_to m a) (pointer_to n b) = compare fns a b"
proof -
  from By_over [OF assms(1,3)] have f: "list_all (fn_over tp) fns" "fns \<noteq> []" by simp_all
  show ?thesis
    using Is_then_pointer_to [OF assms(1) f assms(4,5)] compare_pointer_to [OF assms(1) f(1) assms(4,5)]
    by blast
qed

theorem pointer_operands_transparent_witness:
  "\<exists>fns. By (map (over intT) [sub_ints]) = Inr fns
     \<and> Type_Kind intT \<noteq> Ptr \<and> Type_Kind intT \<noteq> Interface
     \<and> Is_then Equal fns (Ref (Val intT 5)) (Ref (Ref (Val intT 5))) = Inr True
     \<and> Is_then Less fns (Ref (Val intT 3)) (Val intT 5) = Inr True
     \<and> Is_then Less fns (Val intT 3) (Ref (Val intT 5)) = Inr True
     \<and> Is_then Greater fns (Ref (Val intT 3)) (Ref (Val intT 5)) = Inr False"
proof -
  from intFn_compare obtain fns where f: "intFn = Inr fns" "check fns intT = Inr True"
    "\<forall>x y. compare fns (Val intT x) (Val intT y) = Inr (x - y)" by blast
  have k: "Type_Kind intT \<noteq> Ptr" "Type_Kind intT \<noteq> Interface" by (simp_all add: intT_def)
  from f(1) have b: "By (map (over intT) [sub_ints]) = Inr fns" by (simp add: By_intFn)
  have t: "Value_Type (Val intT x :: go_int rvalue) = Some intT" for x by simp
  have e: "Is_then Equal fns (Val intT 5) (Val intT 5) = Inr True"
    and l: "Is_then Less fns (Val intT 3) (Val intT 5) = Inr True"
    and g: "Is_then Greater fns (Val intT 3) (Val intT 5) = Inr False"
    by (simp_all add: Is_then_def Is_def mustValue_def f Equal_def Less_def Greater_def
        Condition_compare_def)
  from pointer_operands_transparent [OF k b t t, where m = 1 and n = 2] e
  have "Is_then Equal fns (Ref (Val intT 5)) (Ref (Ref (Val intT 5))) = Inr True"
    by (simp add: numeral_2_eq_2)
  moreover from pointer_operands_transparent [OF k b t t, where m = 1 and n = 0] l
  have "Is_then Less fns (Ref (Val intT 3)) (Val intT 5) = Inr True"
    by simp
  moreover from pointer_operands_transparent [OF k b t t, where m = 0 and n = 1] l
  have "Is_then Less fns (Val intT 3) (Ref (Val intT 5)) = Inr True"
    by simp
  moreover from pointer_operands_transparent [OF k b t t, where m = 1 and n = 1] g
  have "Is_then Greater fns (Ref (Val intT 3)) (Ref (Val intT 5)) = Inr False"
    by simp
  ultimately show ?thesis using b k by blast
qed

section \<open>Narrowed views\<close>

lemma narrowed_view:
  "case narrowed s0 ns of
     Inl p \<Rightarrow> p = SliceBounds \<and> \<not> in_bounds (Value_cap s0) ns
   | Inr s \<Rightarrow>
       in_bounds (Value_cap s0) ns \<and> 0 \<le> narrow_off ns \<and>
       s = s0\<lparr>Value_start := Value_start s0 + nat (narrow_off ns),
              Value_len := narrowed_len (Value_len s0) ns,
              Value_cap := narrowed_cap (Value_cap s0) ns,
              swapOffset := swapOffset s0 + narrow_off ns\<rparr>"
proof (induction s0 ns rule: narrowed.induct)
  case (1 s)
  then show ?case by (simp add: narrow_off_def)
next
  case (2 s i j ns)
  show ?case
  proof (cases "Slice_Slice s i j")
    case (Inl p)
    then show ?thesis by (auto simp: Slice_Slice_def split: if_splits)
  next
    case (Inr s')
    then have b: "0 \<le> i" "i \<le> j" "j \<le> int (Value_cap s)"
      and s': "s' = s\<lparr>Value_start := Value_start s + nat i, Value_len := nat (j - i),
                      Value_cap := Value_cap s - nat i, swapOffset := swapOffset s + i\<rparr>"
      by (auto simp: Slice_Slice_def split: if_splits)
    from 2 [OF Inr] Inr b show ?thesis
      by (auto simp: s' narrow_off_def nat_add_distrib split: sum.splits)
  qed
next
  case (3 s i j k ns)
  show ?case
  proof (cases "Slice_Slice3 s i j k")
    case (Inl p)
    then show ?thesis by (auto simp: Slice_Slice3_def split: if_splits)
  next
    case (Inr s')
    then have b: "0 \<le> i" "i \<le> j" "j \<le> k" "k \<le> int (Value_cap s)"
      and s': "s' = s\<lparr>Value_start := Value_start s + nat i, Value_len := nat (j - i),
                      Value_cap := nat (k - i), swapOffset := swapOffset s + i\<rparr>"
      by (auto simp: Slice_Slice3_def split: if_splits)
    from 3 [OF Inr] Inr b show ?thesis
      by (auto simp: s' narrow_off_def nat_add_distrib split: sum.splits)
  qed
qed

text \<open>
  Claim C9. Take the view \<^verbatim>\<open>NewSlice\<close> makes of the caller's slice and a chain of
  \<^verbatim>\<open>Slice\<close> and \<^verbatim>\<open>Slice3\<close>. The chain panics (slice bounds out of range) exactly when one
  of its narrowings is not within the capacity it meets. Otherwise it gives a view with
  the element type of the first, with the length and the capacity of the last window,
  and with the sum of the lower bounds as its offset: at an index \<open>i\<close> within its length
  it reads the cell of the store the caller's slice has at \<open>i\<close> plus the offset (nothing
  is copied), and outside its length \<^verbatim>\<open>Index\<close> panics; \<^verbatim>\<open>Swap\<close> on it is \<^verbatim>\<open>Swap\<close> on the
  first view at the indices moved by the offset, which exchanges these two cells of the
  store where both moved indices are within the caller's slice, and panics with the
  store unchanged where one is not.
\<close>

theorem narrowed_Swap_original:
  assumes "NewSlice sl = Inr (Inr s0)"
  shows "case narrowed s0 ns of
           Inl p \<Rightarrow> p = SliceBounds \<and> \<not> in_bounds (Value_cap s0) ns
         | Inr s \<Rightarrow>
             in_bounds (Value_cap s0) ns
           \<and> Value_elem s = Value_elem s0
           \<and> Value_len s = narrowed_len (Value_len s0) ns
           \<and> Value_cap s = narrowed_cap (Value_cap s0) ns
           \<and> swapOffset s = narrow_off ns
           \<and> Index s i =
               (if 0 \<le> i \<and> i < int (narrowed_len (Value_len s0) ns)
                then Inr (Value_start s0 + nat (i + narrow_off ns)) else Inl IndexOutOfRange)
           \<and> Swap s i j st = Swap s0 (i + narrow_off ns) (j + narrow_off ns) st
           \<and> Swap s i j st =
               (if 0 \<le> i + narrow_off ns \<and> i + narrow_off ns < Len s0
                 \<and> 0 \<le> j + narrow_off ns \<and> j + narrow_off ns < Len s0
                then (Inr (), st[Value_start s0 + nat (i + narrow_off ns) :=
                                   st ! (Value_start s0 + nat (j + narrow_off ns)),
                                 Value_start s0 + nat (j + narrow_off ns) :=
                                   st ! (Value_start s0 + nat (i + narrow_off ns))])
                else (Inl IndexOutOfRange, st))"
proof (cases "narrowed s0 ns")
  case (Inl p)
  with narrowed_view [of s0 ns] show ?thesis by simp
next
  case (Inr s)
  from assms have s0: "swapOffset s0 = 0" "swap_start s0 = Value_start s0"
    "swap_len s0 = Value_len s0"
    by (auto simp: NewSlice_def split: option.splits rvalue.splits)
  from narrowed_view [of s0 ns] Inr have b: "in_bounds (Value_cap s0) ns" "0 \<le> narrow_off ns"
    and s: "s = s0\<lparr>Value_start := Value_start s0 + nat (narrow_off ns),
              Value_len := narrowed_len (Value_len s0) ns,
              Value_cap := narrowed_cap (Value_cap s0) ns,
              swapOffset := swapOffset s0 + narrow_off ns\<rparr>"
    by simp_all
  have 1: "Index s i =
     (if 0 \<le> i \<and> i < int (narrowed_len (Value_len s0) ns)
      then Inr (Value_start s0 + nat (i + narrow_off ns)) else Inl IndexOutOfRange)"
    using b(2) by (auto simp: s Index_def Len_def nat_add_distrib)
  have 2: "Swap s i j st = Swap s0 (i + narrow_off ns) (j + narrow_off ns) st"
    by (simp add: s s0 Swap_def)
  have 3: "Swap s0 (i + narrow_off ns) (j + narrow_off ns) st =
     (if 0 \<le> i + narrow_off ns \<and> i + narrow_off ns < Len s0
       \<and> 0 \<le> j + narrow_off ns \<and> j + narrow_off ns < Len s0
      then (Inr (), st[Value_start s0 + nat (i + narrow_off ns) :=
                         st ! (Value_start s0 + nat (j + narrow_off ns)),
                       Value_start s0 + nat (j + narrow_off ns) :=
                         st ! (Value_start s0 + nat (i + narrow_off ns))])
      else (Inl IndexOutOfRange, st))"
    by (simp add: s0 Swap_def Swapper_def Len_def)
  show ?thesis
    unfolding Inr sum.case using b(1) 1 2 3 by (simp add: s s0)
qed

text \<open>
  The two chains of the tests of the package, on the slice 1, 2, 3: \<^verbatim>\<open>Slice(1, 3)\<close> and
  \<^verbatim>\<open>Slice3(1, 3, 3)\<close>, then \<^verbatim>\<open>Swap(0, 1)\<close>, leave 1, 3, 2.
\<close>

theorem narrowed_Swap_original_witness:
  "\<exists>s0 s s'. NewSlice (SliceV intT 0 3 3 :: go_int rvalue) = Inr (Inr s0)
     \<and> narrowed s0 [Narrow3 1 3 3] = Inr s
     \<and> Value_len s = 2 \<and> Value_cap s = 2 \<and> swapOffset s = 1
     \<and> Index s 0 = Inr 1 \<and> Index s 2 = Inl IndexOutOfRange
     \<and> Swap s 0 1 [1, 2, 3 :: int] = (Inr (), [1, 3, 2])
     \<and> narrowed s0 [Narrow 1 3] = Inr s'
     \<and> Swap s' 0 1 [1, 2, 3 :: int] = (Inr (), [1, 3, 2])
     \<and> narrowed s0 [Narrow 1 3, Narrow3 1 2 3] = Inl SliceBounds"
proof -
  let ?orig = "\<lparr>Value_elem = intT, Value_start = 0, Value_len = 3, Value_cap = 3,
               swap_start = 0, swap_len = 3, swapOffset = 0\<rparr>"
  have a: "NewSlice (SliceV intT 0 3 3 :: go_int rvalue) = Inr (Inr ?orig)"
    by (simp add: NewSlice_def)
  obtain s where s: "narrowed ?orig [Narrow3 1 3 3] = Inr s"
    by (simp add: Slice_Slice3_def)
  obtain s' where s': "narrowed ?orig [Narrow 1 3] = Inr s'"
    by (simp add: Slice_Slice_def)
  have o: "Swap ?orig 1 2 [1, 2, 3 :: int] = (Inr (), [1, 3, 2])"
    by (simp add: Swap_def Swapper_def)
  from narrowed_Swap_original [OF a, of "[Narrow3 1 3 3]" 0 0 "[1, 2, 3 :: int]", unfolded s sum.case]
  have 1: "Value_len s = 2" "Value_cap s = 2" "swapOffset s = 1" "Index s 0 = Inr 1"
    by (simp_all add: narrow_off_def)
  from narrowed_Swap_original [OF a, of "[Narrow3 1 3 3]" 2 0 "[1, 2, 3 :: int]", unfolded s sum.case]
  have 2: "Index s 2 = Inl IndexOutOfRange"
    by (simp add: narrow_off_def)
  from narrowed_Swap_original [OF a, of "[Narrow3 1 3 3]" 0 1 "[1, 2, 3 :: int]", unfolded s sum.case]
  have 3: "Swap s 0 1 [1, 2, 3 :: int] = (Inr (), [1, 3, 2])"
    by (simp add: narrow_off_def Len_def o)
  from narrowed_Swap_original [OF a, of "[Narrow 1 3]" 0 1 "[1, 2, 3 :: int]", unfolded s' sum.case]
  have 4: "Swap s' 0 1 [1, 2, 3 :: int] = (Inr (), [1, 3, 2])"
    by (simp add: narrow_off_def Len_def o)
  have 5: "narrowed ?orig [Narrow 1 3, Narrow3 1 2 3] = Inl SliceBounds"
    by (simp add: Slice_Slice_def Slice_Slice3_def)
  from a s s' 1 2 3 4 5 show ?thesis by blast
qed

section \<open>Search on sorted slices\<close>

text \<open>
  The loop leaves the interval empty when the value is smaller than the element at
  \<open>start\<close> of a two-element interval, and goes on with it: from \<open>start = 2\<close>,
  \<open>end = 1\<close> on the slice 1, 3, 5, 7 and the value 4 it comes back to the same state.
\<close>

lemma Search_loop_stuck:
  assumes cmp: "\<forall>x y. compare fns (Val intT x) (Val intT y) = Inr (x - y)"
    and s: "Value_start s = 0" "Value_len s = 4"
  shows "Search_loop fns s (Val intT 4) (ints [1, 3, 5, 7]) 2 1 = None"
proof (cases "Search_loop fns s (Val intT 4) (ints [1, 3, 5, 7]) 2 1")
  case None
  then show ?thesis .
next
  case (Some r)
  have "\<not> (fns = fns \<and> s = s \<and> Val intT (4 :: go_int) = Val intT 4
            \<and> ints [1, 3, 5, 7] = ints [1, 3, 5, 7] \<and> (2 :: int) = 2 \<and> (1 :: int) = 1)"
  proof (rule Search_loop.raw_induct
      [where P = "\<lambda>fns' s' v' st' start' endx' y.
         \<not> (fns' = fns \<and> s' = s \<and> v' = Val intT 4 \<and> st' = ints [1, 3, 5, 7]
            \<and> start' = 2 \<and> endx' = 1)", OF _ Some], goal_cases)
    case (1 loop fns' s' v' st' start' endx' y)
    show ?case
    proof
      assume "fns' = fns \<and> s' = s \<and> v' = Val intT 4 \<and> st' = ints [1, 3, 5, 7]
                \<and> start' = 2 \<and> endx' = 1"
      with 1(2) have "loop fns s (Val intT 4) (ints [1, 3, 5, 7]) 2 1 = Some y"
        by (simp add: Index_def Len_def s ints_def cmp)
      from 1(1) [OF this] show False by simp
    qed
  qed
  then show ?thesis by simp
qed

text \<open>
  Claim C2. The claim does not hold of the code: on the sorted slice 1, 2 and the value
  0, which no element equals, \<^verbatim>\<open>Search\<close> does not return -1. The first round leaves
  \<open>start = 0\<close>, \<open>end = -1\<close>, the next midpoint is the sum -1 read as an unsigned number
  and halved, and indexing the slice there panics.
\<close>

theorem Search_panics_on_sorted:
  "\<exists>fns. intFn = Inr fns
     \<and> Search fns (SliceV intT 0 2 2) (Val intT 0) (ints [1, 2]) = Some (Inl IndexOutOfRange)"
proof -
  from intFn_compare obtain fns where f: "intFn = Inr fns" "check fns intT = Inr True"
    "\<forall>x y. compare fns (Val intT x) (Val intT y) = Inr (x - y)" by blast
  let ?s = "\<lparr>Value_elem = intT, Value_start = 0, Value_len = 2, Value_cap = 2,
               swap_start = 0, swap_len = 2, swapOffset = 0\<rparr>"
  have 1: "Search_loop fns ?s (Val intT 0) (ints [1, 2]) 0 1
         = Search_loop fns ?s (Val intT 0) (ints [1, 2]) 0 (- 1)"
    by (subst Search_loop.simps) (simp add: Index_def Len_def ints_def f)
  have 2: "Search_loop fns ?s (Val intT 0) (ints [1, 2]) 0 (- 1) = Some (Inl IndexOutOfRange)"
    by (subst Search_loop.simps) (simp add: Index_def Len_def ints_def f)
  have "Search fns (SliceV intT 0 2 2) (Val intT 0) (ints [1, 2]) = Some (Inl IndexOutOfRange)"
    by (simp add: Search_def mustSlice_def NewSlice_def Slice_T_def mustValue_def f Len_def)
       (simp add: 1 2)
  with f show ?thesis by blast
qed

text \<open>
  Claim C5. The claim does not hold of the code: on the sorted slice 1, 3, 5, 7 and the
  value 4, \<^verbatim>\<open>Search\<close> passes its validation and never returns.
\<close>

theorem Search_never_returns:
  "\<exists>fns. intFn = Inr fns
     \<and> Search fns (SliceV intT 0 4 4) (Val intT 4) (ints [1, 3, 5, 7]) = None"
proof -
  from intFn_compare obtain fns where f: "intFn = Inr fns" "check fns intT = Inr True"
    "\<forall>x y. compare fns (Val intT x) (Val intT y) = Inr (x - y)" by blast
  let ?s = "\<lparr>Value_elem = intT, Value_start = 0, Value_len = 4, Value_cap = 4,
               swap_start = 0, swap_len = 4, swapOffset = 0\<rparr>"
  have 1: "Search_loop fns ?s (Val intT 4) (ints [1, 3, 5, 7]) 0 3
         = Search_loop fns ?s (Val intT 4) (ints [1, 3, 5, 7]) 2 3"
    by (subst Search_loop.simps) (simp add: Index_def Len_def ints_def f)
  have 2: "Search_loop fns ?s (Val intT 4) (ints [1, 3, 5, 7]) 2 3
         = Search_loop fns ?s (Val intT 4) (ints [1, 3, 5, 7]) 2 1"
    by (subst Search_loop.simps) (simp add: Index_def Len_def ints_def f)
  have "Search fns (SliceV intT 0 4 4) (Val intT 4) (ints [1, 3, 5, 7]) = None"
    by (simp add: Search_def mustSlice_def NewSlice_def Slice_T_def mustValue_def f Len_def)
       (simp add: 1 [unfolded Len_def] 2 Search_loop_stuck f)
  with f show ?thesis by blast
qed

section \<open>The sign of a comparison\<close>

lemma less_by_iff: "less_by fns x y \<longleftrightarrow> (\<exists>c. compare fns x y = Inr c \<and> sint c < 0)"
  by (simp add: less_by_def split: sum.splits)

lemma le_by_iff: "le_by fns x y \<longleftrightarrow> (\<exists>c. compare fns x y = Inr c \<and> sint c \<le> 0)"
  by (simp add: le_by_def split: sum.splits)

lemma ge_by_iff: "ge_by fns x y \<longleftrightarrow> (\<exists>c. compare fns x y = Inr c \<and> 0 \<le> sint c)"
  by (simp add: ge_by_def split: sum.splits)

lemma greater_by_iff: "greater_by fns x y \<longleftrightarrow> (\<exists>c. compare fns x y = Inr c \<and> 0 < sint c)"
  by (simp add: greater_by_def split: sum.splits)

lemma returns_on_iff:
  "returns_on fns X \<longleftrightarrow> (\<forall>a\<in>X. \<forall>b\<in>X. \<exists>c. compare fns a b = Inr c)"
proof -
  have "(case r of Inl p \<Rightarrow> False | Inr c \<Rightarrow> True) \<longleftrightarrow> (\<exists>c. r = Inr c)"
    for r :: "fn_panic + go_int"
    by (cases r) simp_all
  then show ?thesis by (simp add: returns_on_def)
qed

section \<open>Views and the store\<close>

lemma frame_refl: "frame a n st st"
  by (simp add: frame_def)

lemma frame_trans: "frame a n st st1 \<Longrightarrow> frame a n st1 st2 \<Longrightarrow> frame a n st st2"
  by (simp add: frame_def)

lemma frame_sub:
  "frame a' n' st st' \<Longrightarrow> a \<le> a' \<Longrightarrow> a' + n' \<le> a + n \<Longrightarrow> frame a n st st'"
  by (auto simp: frame_def)

lemma frame_swap:
  "a \<le> p \<Longrightarrow> p < a + n \<Longrightarrow> a \<le> q \<Longrightarrow> q < a + n \<Longrightarrow> a + n \<le> length st \<Longrightarrow>
   frame a n st (st[p := st ! q, q := st ! p])"
  by (auto simp: frame_def mset_swap)

lemma frame_take_drop:
  assumes "frame a n st st'"
  shows "take a st' = take a st" and "drop (a + n) st' = drop (a + n) st"
  using assms by (auto simp: frame_def intro!: nth_equalityI)

lemma frame_window_mset:
  assumes "frame a n st st'"
  shows "mset (take n (drop a st')) = mset (take n (drop a st))"
proof -
  have "st = take a st @ take n (drop a st) @ drop (a + n) st" for st :: "'a list"
    by (metis append_take_drop_id drop_drop add.commute)
  then have "mset st = mset (take a st) + mset (take n (drop a st)) + mset (drop (a + n) st)"
    for st :: "'a list"
    by (metis mset_append add.assoc)
  from this [of st] this [of st'] assms frame_take_drop [OF assms] show ?thesis
    by (simp add: frame_def)
qed

lemma frame_window:
  "frame (Value_start s) (Value_len s) st st' \<Longrightarrow> mset (window s st') = mset (window s st)"
  by (simp add: window_def frame_window_mset)

lemma frame_window_set:
  "frame (Value_start s) (Value_len s) st st' \<Longrightarrow> set (window s st') = set (window s st)"
  by (metis frame_window set_mset_mset)

lemma nth_window:
  "Value_start s + Value_len s \<le> length st \<Longrightarrow> i < Value_len s \<Longrightarrow>
   window s st ! i = st ! (Value_start s + i)"
  by (simp add: window_def)

lemma length_window:
  "Value_start s + Value_len s \<le> length st \<Longrightarrow> length (window s st) = Value_len s"
  by (simp add: window_def)

lemma in_window:
  "Value_start s + Value_len s \<le> length st \<Longrightarrow> i < Value_len s \<Longrightarrow>
   st ! (Value_start s + i) \<in> set (window s st)"
  by (metis nth_window length_window nth_mem)

lemma valid_view_frame:
  "valid_view s st \<Longrightarrow> length st' = length st \<Longrightarrow> valid_view s st'"
  by (simp add: valid_view_def)

lemma Index_in:
  "i < Value_len s \<Longrightarrow> Index s (int i) = Inr (Value_start s + i)"
  by (simp add: Index_def Len_def)

lemma Swap_in:
  "valid_view s st \<Longrightarrow> i < Value_len s \<Longrightarrow> j < Value_len s \<Longrightarrow>
   Swap s (int i) (int j) st =
     (Inr (), st[Value_start s + i := st ! (Value_start s + j),
                 Value_start s + j := st ! (Value_start s + i)])"
proof -
  assume v: "valid_view s st" and i: "i < Value_len s" and j: "j < Value_len s"
  have r: "0 \<le> int k + swapOffset s \<and> int k + swapOffset s < int (swap_len s)
      \<and> swap_start s + nat (int k + swapOffset s) = Value_start s + k"
    if "k < Value_len s" for k
    using v that unfolding valid_view_def by linarith
  from r [OF i] r [OF j] show ?thesis
    by (simp add: Swap_def Swapper_def)
qed

lemma Swap_frame:
  assumes "valid_view s st" "i < Value_len s" "j < Value_len s"
  shows "\<exists>st'. Swap s (int i) (int j) st = (Inr (), st')
     \<and> frame (Value_start s) (Value_len s) st st'
     \<and> st' = st[Value_start s + i := st ! (Value_start s + j),
                 Value_start s + j := st ! (Value_start s + i)]"
  using assms Swap_in [OF assms]
  by (auto simp: valid_view_def intro!: frame_swap)

lemma Slice_in:
  assumes "valid_view s st" "i \<le> j" "j \<le> Value_len s"
  shows "\<exists>s'. Slice_Slice s (int i) (int j) = Inr s' \<and> valid_view s' st
     \<and> Value_start s' = Value_start s + i \<and> Value_len s' = j - i"
  using assms
  by (auto simp: Slice_Slice_def valid_view_def nat_add_distrib)

lemma ready_frame:
  "ready fns s st \<Longrightarrow> frame (Value_start s) (Value_len s) st st' \<Longrightarrow> ready fns s st'"
  by (auto simp: ready_def frame_window_set intro: valid_view_frame simp: frame_def)

lemma ready_compare:
  "ready fns s st \<Longrightarrow> i < Value_len s \<Longrightarrow> j < Value_len s \<Longrightarrow>
   \<exists>c. compare fns (st ! (Value_start s + i)) (st ! (Value_start s + j)) = Inr c"
  unfolding ready_def returns_on_iff valid_view_def
  using in_window [of s st] by blast

lemma window_sub:
  assumes "Value_start s' = Value_start s + i" "Value_len s' = j - i" "i \<le> j" "j \<le> Value_len s"
    "Value_start s + Value_len s \<le> length st"
  shows "set (window s' st) \<subseteq> set (window s st)"
proof
  fix x assume "x \<in> set (window s' st)"
  then obtain m where m: "m < length (window s' st)" "x = window s' st ! m"
    by (metis in_set_conv_nth)
  from assms have l: "Value_start s' + Value_len s' \<le> length st" by simp
  from m length_window [OF l] have m': "m < j - i" by (simp add: assms)
  with m nth_window [OF l, of m] have "x = st ! (Value_start s + (i + m))" by (simp add: assms add.assoc)
  moreover from m' assms have "i + m < Value_len s" by simp
  ultimately show "x \<in> set (window s st)" using in_window [OF assms(5)] by simp
qed

lemma ready_Slice:
  assumes "ready fns s st" "i \<le> j" "j \<le> Value_len s"
  shows "\<exists>s'. Slice_Slice s (int i) (int j) = Inr s' \<and> ready fns s' st
     \<and> Value_start s' = Value_start s + i \<and> Value_len s' = j - i"
proof -
  from assms have v: "valid_view s st" by (simp add: ready_def)
  from Slice_in [OF v assms(2,3)] obtain s' where s': "Slice_Slice s (int i) (int j) = Inr s'"
    "valid_view s' st" "Value_start s' = Value_start s + i" "Value_len s' = j - i" by blast
  from v have "Value_start s + Value_len s \<le> length st" by (simp add: valid_view_def)
  from window_sub [OF s'(3,4) assms(2,3) this] assms(1)
  have "returns_on fns (set (window s' st))"
    unfolding ready_def returns_on_iff by blast
  with s' show ?thesis by (auto simp: ready_def)
qed

lemma frame_outside:
  "frame a n st st' \<Longrightarrow>
   length st' = length st \<and> (\<forall>q<length st. q < a \<or> a + n \<le> q \<longrightarrow> st' ! q = st ! q)"
  by (simp add: frame_def)

lemma mustSlice_view:
  "mustSlice fns sl = Inr s \<Longrightarrow>
   swapOffset s = 0 \<and> swap_start s = Value_start s \<and> swap_len s = Value_len s"
  by (auto simp: mustSlice_def NewSlice_def split: sum.splits option.splits rvalue.splits if_splits)

lemma mustSlice_valid:
  "mustSlice fns sl = Inr s \<Longrightarrow> in_store s st \<Longrightarrow> valid_view s st"
  using mustSlice_view [of fns sl s] by (simp add: valid_view_def in_store_def)

lemma intFn_view:
  assumes "check fns intT = Inr True"
  shows "mustSlice fns (SliceV intT 0 n n :: go_int rvalue)
       = Inr \<lparr>Value_elem = intT, Value_start = 0, Value_len = n, Value_cap = n,
              swap_start = 0, swap_len = n, swapOffset = 0\<rparr>"
  by (simp add: mustSlice_def NewSlice_def Slice_T_def assms)

section \<open>The small sort and the pivot return\<close>

text \<open>
  Where every comparison of two elements of the window returns, \<^verbatim>\<open>sortSmallSlice\<close> and
  \<^verbatim>\<open>pivot\<close> return, and they move elements within the window only. Nothing more is
  needed of the pivot: whichever element it brings to the front, \<^verbatim>\<open>partition\<close> puts
  it at its place.
\<close>

lemma sortSmallSlice_inner_frame:
  "ready fns s st \<Longrightarrow> j < Value_len s \<Longrightarrow>
   \<exists>st'. sortSmallSlice_inner fns s (int j) st = (Inr (), st')
     \<and> frame (Value_start s) (Value_len s) st st'"
proof (induction j arbitrary: st)
  case 0
  then show ?case by (subst sortSmallSlice_inner.simps) (simp add: frame_refl)
next
  case (Suc j)
  from Suc.prems have j: "j < Value_len s" by simp
  from ready_compare [OF Suc.prems(1) j Suc.prems(2)] obtain c where
    c: "compare fns (st ! (Value_start s + j)) (st ! (Value_start s + Suc j)) = Inr c" by blast
  show ?case
  proof (cases "sint c > 0")
    case False
    with c j Suc.prems(2) show ?thesis
      by (subst sortSmallSlice_inner.simps) (simp add: Index_in [of j] Index_in [of "Suc j", simplified] frame_refl)
  next
    case True
    from Suc.prems(1) have v: "valid_view s st" by (simp add: ready_def)
    from Swap_frame [OF v j Suc.prems(2)] obtain st1 where
      sw: "Swap s (int j) (int (Suc j)) st = (Inr (), st1)"
      and f1: "frame (Value_start s) (Value_len s) st st1" by blast
    from Suc.IH [OF ready_frame [OF Suc.prems(1) f1] j] obtain st' where
      r: "sortSmallSlice_inner fns s (int j) st1 = (Inr (), st')"
      and f2: "frame (Value_start s) (Value_len s) st1 st'" by blast
    have "sortSmallSlice_inner fns s (int (Suc j)) st = (Inr (), st')"
      using c j Suc.prems(2) True sw r
      by (subst sortSmallSlice_inner.simps) (simp add: Index_in [of j] Index_in [of "Suc j", simplified])
    with frame_trans [OF f1 f2] show ?thesis by blast
  qed
qed

lemma sortSmallSlice_outer_frame:
  "ready fns s st \<Longrightarrow>
   \<exists>st'. sortSmallSlice_outer fns s (int i) st = (Inr (), st')
     \<and> frame (Value_start s) (Value_len s) st st'"
proof (induction "Value_len s - i" arbitrary: i st)
  case 0
  then show ?case by (subst sortSmallSlice_outer.simps) (simp add: Len_def frame_refl)
next
  case (Suc d)
  then have i: "i < Value_len s" by simp
  from sortSmallSlice_inner_frame [OF Suc.prems i] obtain st1 where
    a: "sortSmallSlice_inner fns s (int i) st = (Inr (), st1)"
    and f1: "frame (Value_start s) (Value_len s) st st1" by blast
  from Suc.hyps(2) have "d = Value_len s - Suc i" by simp
  from Suc.hyps(1) [OF this ready_frame [OF Suc.prems f1]] obtain st' where
    r: "sortSmallSlice_outer fns s (int (Suc i)) st1 = (Inr (), st')"
    and f2: "frame (Value_start s) (Value_len s) st1 st'" by blast
  have "sortSmallSlice_outer fns s (int i) st = (Inr (), st')"
    using i a r by (subst sortSmallSlice_outer.simps) (simp add: Len_def add.commute)
  with frame_trans [OF f1 f2] show ?case by blast
qed

lemma sortSmallSlice_frame:
  "ready fns s st \<Longrightarrow>
   \<exists>st'. sortSmallSlice fns s st = (Inr (), st') \<and> frame (Value_start s) (Value_len s) st st'"
  using sortSmallSlice_outer_frame [of fns s st 1] by (simp add: sortSmallSlice_def)

lemma pivot_groups_frame:
  "ready fns s st \<Longrightarrow> medLen \<le> left \<Longrightarrow>
   \<exists>m st'. pivot_groups fns s (Len s) (int left) (int medLen) st = (Inr m, st')
     \<and> frame (Value_start s) (Value_len s) st st'"
proof (induction "Value_len s - left" arbitrary: left medLen st rule: less_induct)
  case less
  show ?case
  proof (cases "left < Value_len s")
    case False
    then show ?thesis by (subst pivot_groups.simps) (simp add: Len_def frame_refl)
  next
    case True
    define right where "right = min (left + 5) (Value_len s)"
    have right: "minInt (int left + 5) (Len s) = int right"
      by (simp add: minInt_def right_def Len_def min_def)
    have lr: "left < right" "right \<le> Value_len s" using True by (simp_all add: right_def)
    from ready_Slice [OF less.prems(1), of left right] lr obtain g where
      g: "Slice_Slice s (int left) (int right) = Inr g" "ready fns g st"
      "Value_start g = Value_start s + left" "Value_len g = right - left" by auto
    from sortSmallSlice_frame [OF g(2)] obtain st1 where
      s1: "sortSmallSlice fns g st = (Inr (), st1)"
      and "frame (Value_start g) (Value_len g) st st1" by blast
    then have f1: "frame (Value_start s) (Value_len s) st st1"
      using lr g(3,4) by (auto intro: frame_sub)
    note r1 = ready_frame [OF less.prems(1) f1]
    then have v1: "valid_view s st1" by (simp add: ready_def)
    define mid where "mid = (left + right - 1) div 2"
    have mid: "(int left + int right - 1) div 2 = int mid"
      using lr by (simp add: mid_def zdiv_int of_nat_diff)
    have "mid < Value_len s" "medLen < Value_len s"
      using lr True less.prems(2) by (auto simp: mid_def)
    from Swap_frame [OF v1 this] obtain st2 where
      s2: "Swap s (int mid) (int medLen) st1 = (Inr (), st2)"
      and f2: "frame (Value_start s) (Value_len s) st1 st2" by blast
    note r2 = ready_frame [OF r1 f2]
    have "Value_len s - (left + 5) < Value_len s - left" using True by simp
    from less.hyps [OF this r2, of "Suc medLen"] less.prems(2) obtain m st' where
      r: "pivot_groups fns s (Len s) (int (left + 5)) (int (Suc medLen)) st2 = (Inr m, st')"
      and f3: "frame (Value_start s) (Value_len s) st2 st'" by auto
    have "pivot_groups fns s (Len s) (int left) (int medLen) st = (Inr m, st')"
      using True g(1) s1 s2 r
      by (subst pivot_groups.simps) (simp add: Len_def right [unfolded Len_def] mid add.commute)
    with frame_trans [OF frame_trans [OF f1 f2] f3] show ?thesis by blast
  qed
qed

lemma Fns_pivot_frame:
  "ready fns s st \<Longrightarrow>
   \<exists>st'. Fns_pivot fns s st = (Inr (), st') \<and> frame (Value_start s) (Value_len s) st st'"
proof (induction "Value_len s" arbitrary: s st rule: less_induct)
  case less
  note r0 = less.prems
  consider "Value_len s = 0" | "0 < Value_len s" "Value_len s \<le> 5" | "5 < Value_len s" by linarith
  then show ?case
  proof cases
    case 1
    then show ?thesis by (subst Fns_pivot.simps) (simp add: Len_def frame_refl)
  next
    case 2
    from sortSmallSlice_frame [OF r0] obtain st1 where
      s1: "sortSmallSlice fns s st = (Inr (), st1)"
      and f1: "frame (Value_start s) (Value_len s) st st1" by blast
    from ready_frame [OF r0 f1] have v1: "valid_view s st1" by (simp add: ready_def)
    define mid where "mid = (Value_len s - 1) div 2"
    have mid: "(int (Value_len s) - 1) div 2 = int mid"
      using 2 by (simp add: mid_def zdiv_int of_nat_diff)
    have "mid < Value_len s" "0 < Value_len s" using 2 by (auto simp: mid_def)
    from Swap_frame [OF v1 this] obtain st2 where
      s2: "Swap s (int mid) (int 0) st1 = (Inr (), st2)"
      and f2: "frame (Value_start s) (Value_len s) st1 st2" by blast
    have "Fns_pivot fns s st = (Inr (), st2)"
      using 2 s1 s2 by (subst Fns_pivot.simps) (simp add: Len_def mid)
    with frame_trans [OF f1 f2] show ?thesis by blast
  next
    case 3
    from pivot_groups_frame [OF r0, of 0 0] obtain m st1 where
      g: "pivot_groups fns s (Len s) 0 0 st = (Inr m, st1)"
      and f1: "frame (Value_start s) (Value_len s) st st1" by auto
    from pivot_groups_medLen [OF g] 3 have m: "0 \<le> m" "nat m < Value_len s"
      by (auto simp: Len_def split: if_splits)
    note r1 = ready_frame [OF r0 f1]
    from ready_Slice [OF r1, of 0 "nat m"] m obtain s' where
      s': "Slice_Slice s 0 m = Inr s'" "ready fns s' st1"
      "Value_start s' = Value_start s" "Value_len s' = nat m" by auto
    from less.hyps [OF _ s'(2)] s'(4) m obtain st' where
      r: "Fns_pivot fns s' st1 = (Inr (), st')"
      and "frame (Value_start s') (Value_len s') st1 st'" by auto
    then have f2: "frame (Value_start s) (Value_len s) st1 st'"
      using s'(3,4) m by (auto intro: frame_sub)
    have "Fns_pivot fns s st = (Inr (), st')"
      using 3 g s'(1) r by (subst Fns_pivot.simps) (simp add: Len_def)
    with frame_trans [OF f1 f2] show ?thesis by blast
  qed
qed

section \<open>partition\<close>

text \<open>
  The invariant of the scan: the elements before the cursor are below the pivot, which
  waits at the last place, and the elements from the cursor to the scanned place are not.
\<close>

lemma swapped_nth:
  "p < length st \<Longrightarrow> q < length st \<Longrightarrow>
   st[p := st ! q, q := st ! p] ! r = (if r = q then st ! p else if r = p then st ! q else st ! r)"
  by (auto simp: nth_list_update)

lemma partition_loop_spec:
  fixes s :: Slice and st :: "'v rvalue list"
  defines "a \<equiv> Value_start s" and "n \<equiv> Value_len s"
  defines "pv \<equiv> Value_start s + (Value_len s - 1)"
  assumes r: "ready fns s st" and n: "0 < n" and i: "i \<le> n - 1" and c: "cursor \<le> i"
    and lo: "\<forall>p. a \<le> p \<and> p < a + cursor \<longrightarrow> less_by fns (st ! p) (st ! pv)"
    and hi: "\<forall>p. a + cursor \<le> p \<and> p < a + i \<longrightarrow> ge_by fns (st ! p) (st ! pv)"
  shows "\<exists>c st'. partition_loop fns s pv (int n) (int i) (int cursor) st = (Inr (int c), st')
     \<and> c \<le> n - 1 \<and> frame a (n - 1) st st'
     \<and> (\<forall>p. a \<le> p \<and> p < a + c \<longrightarrow> less_by fns (st' ! p) (st' ! pv))
     \<and> (\<forall>p. a + c \<le> p \<and> p < pv \<longrightarrow> ge_by fns (st' ! p) (st' ! pv))"
  using r i c lo hi
proof (induction "n - 1 - i" arbitrary: i cursor st)
  case 0
  then have "i = n - 1" by simp
  then have "\<not> int i < int n - 1" and "a + i = pv" by (simp_all add: a_def pv_def n_def)
  with 0 show ?case
    by (subst partition_loop.simps) (auto simp: frame_refl intro!: exI [of _ cursor])
next
  case (Suc d)
  then have i: "i < n - 1" by simp
  then have ii: "int i < int n - 1" by linarith
  from i have i': "i < Value_len s" "n - 1 < Value_len s" using n by (simp_all add: n_def)
  from Suc.prems(1) have v: "valid_view s st" by (simp add: ready_def)
  then have len: "a + n \<le> length st" by (simp add: valid_view_def a_def n_def)
  have pv: "pv = a + (n - 1)" by (simp add: a_def pv_def n_def)
  from ready_compare [OF Suc.prems(1) i'] obtain x where
    x: "compare fns (st ! (a + i)) (st ! pv) = Inr x" by (auto simp: pv_def a_def n_def)
  have d: "d = n - 1 - Suc i" using Suc.hyps(2) by simp
  have step: "partition_loop fns s pv (int n) (int i) (int cursor) st =
      (if sint x < 0 then
         (case Swap s (int cursor) (int i) st of
            (Inl p, st') \<Rightarrow> (Inl p, st')
          | (Inr u, st') \<Rightarrow> partition_loop fns s pv (int n) (int i + 1) (int cursor + 1) st')
       else partition_loop fns s pv (int n) (int i + 1) (int cursor) st)"
    using ii x
    by (subst partition_loop.simps) (simp add: Index_in [OF i'(1)] a_def [symmetric])
  have e: "int (Suc k) = int k + 1" for k by simp
  show ?case
  proof (cases "sint x < 0")
    case False
    with x have ge: "ge_by fns (st ! (a + i)) (st ! pv)" by (auto simp: ge_by_iff)
    have hi': "\<forall>p. a + cursor \<le> p \<and> p < a + Suc i \<longrightarrow> ge_by fns (st ! p) (st ! pv)"
    proof (intro allI impI)
      fix p assume "a + cursor \<le> p \<and> p < a + Suc i"
      then consider "a + cursor \<le> p \<and> p < a + i" | "p = a + i" by linarith
      then show "ge_by fns (st ! p) (st ! pv)" using Suc.prems(5) ge by cases auto
    qed
    from Suc.hyps(1) [OF d Suc.prems(1) _ _ Suc.prems(4) hi'] i Suc.prems(3)
    obtain c st' where
      res: "partition_loop fns s pv (int n) (int (Suc i)) (int cursor) st = (Inr (int c), st')"
      and post: "c \<le> n - 1" "frame a (n - 1) st st'"
        "\<forall>p. a \<le> p \<and> p < a + c \<longrightarrow> less_by fns (st' ! p) (st' ! pv)"
        "\<forall>p. a + c \<le> p \<and> p < pv \<longrightarrow> ge_by fns (st' ! p) (st' ! pv)"
      by auto
    from step False res [unfolded e]
    have "partition_loop fns s pv (int n) (int i) (int cursor) st = (Inr (int c), st')" by simp
    with post show ?thesis by blast
  next
    case True
    with x have lt: "less_by fns (st ! (a + i)) (st ! pv)" by (auto simp: less_by_iff)
    have c': "cursor < Value_len s" using Suc.prems(3) i'(1) by simp
    from Swap_frame [OF v c' i'(1)] obtain st1 where
      sw: "Swap s (int cursor) (int i) st = (Inr (), st1)"
      and st1: "st1 = st[a + cursor := st ! (a + i), a + i := st ! (a + cursor)]"
      by (auto simp: a_def)
    have nth1: "st1 ! r = (if r = a + i then st ! (a + cursor)
                          else if r = a + cursor then st ! (a + i) else st ! r)" for r
      unfolding st1 using len i Suc.prems(3) by (intro swapped_nth) auto
    have f1: "frame a (n - 1) st st1"
      unfolding st1 using len i Suc.prems(3) by (intro frame_swap) auto
    then have "frame (Value_start s) (Value_len s) st st1"
      by (auto intro: frame_sub simp: a_def n_def)
    note r1 = ready_frame [OF Suc.prems(1) this]
    have ne: "pv \<noteq> a + i" "pv \<noteq> a + cursor"
      using i Suc.prems(3) unfolding pv by linarith+
    then have pv1: "st1 ! pv = st ! pv"
      by (simp add: nth1)
    have lo': "\<forall>p. a \<le> p \<and> p < a + Suc cursor \<longrightarrow> less_by fns (st1 ! p) (st1 ! pv)"
    proof (intro allI impI)
      fix p assume "a \<le> p \<and> p < a + Suc cursor"
      then consider "a \<le> p \<and> p < a + cursor" | "p = a + cursor" by linarith
      then show "less_by fns (st1 ! p) (st1 ! pv)"
        using Suc.prems(4) lt Suc.prems(3) ne by cases (auto simp: nth1)
    qed
    have hi': "\<forall>p. a + Suc cursor \<le> p \<and> p < a + Suc i \<longrightarrow> ge_by fns (st1 ! p) (st1 ! pv)"
    proof (intro allI impI)
      fix p assume p: "a + Suc cursor \<le> p \<and> p < a + Suc i"
      then consider "a + cursor < p \<and> p < a + i" | "p = a + i \<and> cursor < i" by linarith
      then show "ge_by fns (st1 ! p) (st1 ! pv)"
        using Suc.prems(5) ne by cases (auto simp: nth1)
    qed
    from Suc.hyps(1) [OF d r1 _ _ lo' hi'] i Suc.prems(3)
    obtain c st' where
      res: "partition_loop fns s pv (int n) (int (Suc i)) (int (Suc cursor)) st1 = (Inr (int c), st')"
      and post: "c \<le> n - 1" "frame a (n - 1) st1 st'"
        "\<forall>p. a \<le> p \<and> p < a + c \<longrightarrow> less_by fns (st' ! p) (st' ! pv)"
        "\<forall>p. a + c \<le> p \<and> p < pv \<longrightarrow> ge_by fns (st' ! p) (st' ! pv)"
      by auto
    from step True sw res [unfolded e]
    have "partition_loop fns s pv (int n) (int i) (int cursor) st = (Inr (int c), st')" by simp
    with post frame_trans [OF f1 post(2)] show ?thesis by blast
  qed
qed

lemma Fns_partition_spec:
  fixes s :: Slice and st :: "'v rvalue list"
  defines "a \<equiv> Value_start s" and "n \<equiv> Value_len s"
  assumes r: "ready fns s st" and p: "p < n"
  shows "\<exists>c st'. Fns_partition fns s (int p) st = (Inr (int c), st')
     \<and> c < n \<and> frame a n st st' \<and> st' ! (a + c) = st ! (a + p)
     \<and> (\<forall>i<c. less_by fns (st' ! (a + i)) (st' ! (a + c)))
     \<and> (\<forall>i. c < i \<and> i < n \<longrightarrow> ge_by fns (st' ! (a + i)) (st' ! (a + c)))"
proof -
  define pv where "pv = Value_start s + (Value_len s - 1)"
  have pv: "pv = a + (n - 1)" by (simp add: pv_def a_def n_def)
  from p have n: "0 < n" by simp
  from r have v: "valid_view s st" by (simp add: ready_def)
  then have len: "a + n \<le> length st" by (simp add: valid_view_def a_def n_def)
  have last: "n - 1 < Value_len s" using n by (simp add: n_def)
  have nn: "int n - 1 = int (n - 1)" using n by simp
  from Swap_frame [OF v p [unfolded n_def] last] obtain st1 where
    s1: "Swap s (int p) (int (n - 1)) st = (Inr (), st1)"
    and f1: "frame a n st st1"
    and st1: "st1 = st[a + p := st ! (a + (n - 1)), a + (n - 1) := st ! (a + p)]"
    by (auto simp: a_def n_def)
  have v1: "st1 ! pv = st ! (a + p)"
    unfolding st1 pv using len p n by (subst swapped_nth) auto
  note r1 = ready_frame [OF r f1 [unfolded a_def n_def]]
  have "\<exists>c st2. partition_loop fns s pv (int n) (int 0) (int 0) st1 = (Inr (int c), st2)
     \<and> c \<le> n - 1 \<and> frame a (n - 1) st1 st2
     \<and> (\<forall>q. a \<le> q \<and> q < a + c \<longrightarrow> less_by fns (st2 ! q) (st2 ! pv))
     \<and> (\<forall>q. a + c \<le> q \<and> q < pv \<longrightarrow> ge_by fns (st2 ! q) (st2 ! pv))"
  proof -
    have lo0: "\<forall>q. Value_start s \<le> q \<and> q < Value_start s + 0 \<longrightarrow>
        less_by fns (st1 ! q) (st1 ! (Value_start s + (Value_len s - 1)))"
    proof (intro allI impI)
      fix q assume "Value_start s \<le> q \<and> q < Value_start s + 0"
      then have False by linarith
      then show "less_by fns (st1 ! q) (st1 ! (Value_start s + (Value_len s - 1)))" ..
    qed
    have hi0: "\<forall>q. Value_start s + 0 \<le> q \<and> q < Value_start s + 0 \<longrightarrow>
        ge_by fns (st1 ! q) (st1 ! (Value_start s + (Value_len s - 1)))"
    proof (intro allI impI)
      fix q assume "Value_start s + 0 \<le> q \<and> q < Value_start s + 0"
      then have False by linarith
      then show "ge_by fns (st1 ! q) (st1 ! (Value_start s + (Value_len s - 1)))" ..
    qed
    have z: "(0 :: nat) \<le> Value_len s - 1" "(0 :: nat) \<le> 0" by simp_all
    note spec = partition_loop_spec [where fns = fns and s = s and st = st1 and i = 0 and cursor = 0]
    from spec [OF r1 n [unfolded n_def] z lo0 hi0]
    show ?thesis unfolding pv_def a_def n_def .
  qed
  then obtain c st2 where
    l: "partition_loop fns s pv (int n) 0 0 st1 = (Inr (int c), st2)"
    and c: "c \<le> n - 1" and f2: "frame a (n - 1) st1 st2"
    and lo: "\<forall>q. a \<le> q \<and> q < a + c \<longrightarrow> less_by fns (st2 ! q) (st2 ! pv)"
    and hi: "\<forall>q. a + c \<le> q \<and> q < pv \<longrightarrow> ge_by fns (st2 ! q) (st2 ! pv)"
    by auto
  from f2 have f2': "frame a n st1 st2" by (auto intro: frame_sub)
  from f2 len f1 n have v2: "st2 ! pv = st1 ! pv"
    by (simp add: frame_def pv)
  note r2 = ready_frame [OF r1 f2' [unfolded a_def n_def]]
  then have vv2: "valid_view s st2" by (simp add: ready_def)
  from f1 f2' len have len2: "a + n \<le> length st2" by (simp add: frame_def)
  have c': "c < Value_len s" using c n by (simp add: n_def)
  from Swap_frame [OF vv2 c' last] obtain st3 where
    s3: "Swap s (int c) (int (n - 1)) st2 = (Inr (), st3)"
    and f3: "frame a n st2 st3"
    and st3: "st3 = st2[a + c := st2 ! pv, pv := st2 ! (a + c)]"
    by (auto simp: a_def n_def pv_def)
  have nth3: "st3 ! q = (if q = pv then st2 ! (a + c) else if q = a + c then st2 ! pv else st2 ! q)"
    for q
    unfolding st3 using len2 c n pv by (intro swapped_nth) auto
  have L: "Len s - 1 = int (n - 1)" "Len s = int n" using n by (simp_all add: Len_def n_def)
  have I: "Index s (int (n - 1)) = Inr pv" using Index_in [OF last] by (simp add: pv_def n_def)
  have res: "Fns_partition fns s (int p) st = (Inr (int c), st3)"
    unfolding Fns_partition_def Let_def L(2) nn by (simp only: s1 I l s3 prod.case sum.case)
  have at_c: "st3 ! (a + c) = st2 ! pv" by (simp add: nth3)
  have "st3 ! (a + c) = st ! (a + p)" using at_c v2 v1 by simp
  moreover have "less_by fns (st3 ! (a + i)) (st3 ! (a + c))" if "i < c" for i
  proof -
    from that c have "a + i \<noteq> pv" "a + i \<noteq> a + c" unfolding pv by linarith+
    with lo that show ?thesis by (simp add: nth3)
  qed
  moreover have "ge_by fns (st3 ! (a + i)) (st3 ! (a + c))" if "c < i \<and> i < n" for i
  proof (cases "a + i = pv")
    case True
    with that have lt: "a + c < pv" unfolding pv by linarith
    with hi have "ge_by fns (st2 ! (a + c)) (st2 ! pv)" by simp
    with True lt show ?thesis by (simp add: nth3)
  next
    case False
    with that have "a + c \<le> a + i \<and> a + i < pv" "a + i \<noteq> a + c" unfolding pv by linarith+
    with hi False show ?thesis by (simp add: nth3)
  qed
  moreover have "c < n" using c n by simp
  moreover have "frame a n st st3" using f1 f2' f3 by (blast intro: frame_trans)
  ultimately show ?thesis using res by blast
qed

text \<open>
  Claim C4. Take a window of a valid view on whose elements every comparison returns,
  and a position \<open>p\<close> within it. \<^verbatim>\<open>partition\<close> returns an index \<open>c\<close> within the
  window; the window holds the same elements as before (as a multiset) and the store is
  unchanged outside it; the element that was at \<open>p\<close> is at \<open>c\<close>; every element at a
  position before \<open>c\<close> compares below it (the result of the comparison is negative),
  and every element at a position after \<open>c\<close> compares not below it (the result is not
  negative).
\<close>

theorem partition_around_pivot:
  assumes "valid_view s st" and "returns_on fns (set (window s st))"
    and "0 \<le> p" and "p < Len s"
  shows "\<exists>c st'. Fns_partition fns s p st = (Inr c, st')
     \<and> 0 \<le> c \<and> c < Len s
     \<and> length st' = length st
     \<and> mset (window s st') = mset (window s st)
     \<and> (\<forall>q<length st. q < Value_start s \<or> Value_start s + Value_len s \<le> q \<longrightarrow> st' ! q = st ! q)
     \<and> window s st' ! nat c = window s st ! nat p
     \<and> (\<forall>i<nat c. less_by fns (window s st' ! i) (window s st' ! nat c))
     \<and> (\<forall>i. nat c < i \<and> i < Value_len s \<longrightarrow> ge_by fns (window s st' ! i) (window s st' ! nat c))"
proof -
  from assms(1,2) have r: "ready fns s st" by (simp add: ready_def)
  from assms(3,4) have p: "nat p < Value_len s" "int (nat p) = p" by (simp_all add: Len_def)
  from Fns_partition_spec [OF r p(1)] p(2) obtain c st' where
    res: "Fns_partition fns s p st = (Inr (int c), st')" and c: "c < Value_len s"
    and f: "frame (Value_start s) (Value_len s) st st'"
    and at: "st' ! (Value_start s + c) = st ! (Value_start s + nat p)"
    and lo: "\<forall>i<c. less_by fns (st' ! (Value_start s + i)) (st' ! (Value_start s + c))"
    and hi: "\<forall>i. c < i \<and> i < Value_len s \<longrightarrow>
               ge_by fns (st' ! (Value_start s + i)) (st' ! (Value_start s + c))"
    by auto
  from assms(1) have len: "Value_start s + Value_len s \<le> length st" by (simp add: valid_view_def)
  with f have len': "Value_start s + Value_len s \<le> length st'" by (simp add: frame_def)
  note w = nth_window [OF len] and w' = nth_window [OF len']
  have "window s st' ! c = window s st ! nat p" using at c p(1) by (simp add: w w')
  moreover have "\<forall>i<c. less_by fns (window s st' ! i) (window s st' ! c)"
    using lo c by (simp add: w')
  moreover have "\<forall>i. c < i \<and> i < Value_len s \<longrightarrow> ge_by fns (window s st' ! i) (window s st' ! c)"
    using hi c by (simp add: w')
  moreover have "0 \<le> int c \<and> int c < Len s" using c by (simp add: Len_def)
  ultimately show ?thesis
    using res frame_window [OF f] frame_outside [OF f]
    by (intro exI [of _ "int c"] exI [of _ st']) simp
qed

text \<open>
  The test of the package: \<^verbatim>\<open>partition(s, 3)\<close> on 5, 4, 2, 3, 1 returns 2 and leaves
  2, 1, 3, 4, 5.
\<close>

theorem partition_around_pivot_witness:
  "\<exists>fns s. intFn = Inr fns
     \<and> NewSlice (SliceV intT 0 5 5 :: go_int rvalue) = Inr (Inr s)
     \<and> valid_view s (ints [5, 4, 2, 3, 1])
     \<and> returns_on fns (set (window s (ints [5, 4, 2, 3, 1])))
     \<and> Fns_partition fns s 3 (ints [5, 4, 2, 3, 1]) = (Inr 2, ints [2, 1, 3, 4, 5])
     \<and> window s (ints [2, 1, 3, 4, 5]) ! 2 = window s (ints [5, 4, 2, 3, 1]) ! 3
     \<and> less_by fns (Val intT 2) (Val intT 3) \<and> less_by fns (Val intT 1) (Val intT 3)
     \<and> ge_by fns (Val intT 4) (Val intT 3) \<and> ge_by fns (Val intT 5) (Val intT 3)"
proof -
  from intFn_compare obtain fns where f: "intFn = Inr fns" "check fns intT = Inr True"
    "\<forall>x y. compare fns (Val intT x) (Val intT y) = Inr (x - y)" by blast
  let ?s = "\<lparr>Value_elem = intT, Value_start = 0, Value_len = 5, Value_cap = 5,
            swap_start = 0, swap_len = 5, swapOffset = 0\<rparr>"
  let ?st = "ints [5, 4, 2, 3, 1]" and ?st' = "ints [2, 1, 3, 4, 5]"
  have a: "NewSlice (SliceV intT 0 5 5 :: go_int rvalue) = Inr (Inr ?s)"
    by (simp add: NewSlice_def)
  have v: "valid_view ?s ?st" by (simp add: valid_view_def ints_def)
  have r: "returns_on fns (set (window ?s ?st))"
    by (simp add: returns_on_iff window_def ints_def f)
  have e: "Fns_partition fns ?s 3 ?st = (Inr 2, ?st')"
    by (simp add: Fns_partition_def partition_loop.simps Swap_def Swapper_def Index_def Len_def
        ints_def f)
  from partition_around_pivot [OF v r, of 3] obtain c st' where
    c: "Fns_partition fns ?s 3 ?st = (Inr c, st')"
    and at: "window ?s st' ! nat c = window ?s ?st ! nat 3"
    and lo: "\<forall>i<nat c. less_by fns (window ?s st' ! i) (window ?s st' ! nat c)"
    and hi: "\<forall>i. nat c < i \<and> i < Value_len ?s \<longrightarrow>
               ge_by fns (window ?s st' ! i) (window ?s st' ! nat c)"
    by (auto simp: Len_def)
  from c e have cs: "c = 2" "st' = ?st'" by simp_all
  have w: "window ?s ?st' = ?st'" by (simp add: window_def ints_def)
  from at have 1: "window ?s ?st' ! 2 = window ?s ?st ! 3" by (simp add: cs)
  from lo [rule_format, of 0] lo [rule_format, of 1]
  have 2: "less_by fns (Val intT 2) (Val intT 3)" "less_by fns (Val intT 1) (Val intT 3)"
    by (simp_all add: cs w) (simp_all add: ints_def)
  from hi [rule_format, of 3] hi [rule_format, of 4]
  have 3: "ge_by fns (Val intT 4) (Val intT 3)" "ge_by fns (Val intT 5) (Val intT 3)"
    by (simp_all add: cs w) (simp_all add: ints_def)
  from f(1) a v r e 1 2 3 show ?thesis by blast
qed

section \<open>Consistent orders\<close>

lemma consistent_on_subset: "consistent_on fns X \<Longrightarrow> Y \<subseteq> X \<Longrightarrow> consistent_on fns Y"
  unfolding consistent_on_def returns_on_iff by blast

lemma less_le_by: "less_by fns a b \<Longrightarrow> le_by fns a b"
  by (auto simp: less_by_iff le_by_iff)

lemma ge_le_by:
  assumes "consistent_on fns X" "a \<in> X" "b \<in> X" "ge_by fns a b"
  shows "le_by fns b a"
proof -
  from assms(1-3) obtain c where c: "compare fns b a = Inr c"
    unfolding consistent_on_def returns_on_iff by blast
  from assms(4) have "\<not> less_by fns a b" by (auto simp: ge_by_iff less_by_iff)
  with assms(1-3) have "\<not> greater_by fns b a" unfolding consistent_on_def by blast
  with c show ?thesis by (auto simp: greater_by_iff le_by_iff not_less)
qed

lemma le_by_refl:
  assumes "consistent_on fns X" "a \<in> X"
  shows "le_by fns a a"
proof -
  from assms obtain c where c: "compare fns a a = Inr c"
    unfolding consistent_on_def returns_on_iff by blast
  from assms have "less_by fns a a \<longleftrightarrow> greater_by fns a a" unfolding consistent_on_def by blast
  with c show ?thesis by (auto simp: less_by_iff greater_by_iff le_by_iff)
qed

lemma le_by_trans:
  "consistent_on fns X \<Longrightarrow> a \<in> X \<Longrightarrow> b \<in> X \<Longrightarrow> c \<in> X \<Longrightarrow>
   le_by fns a b \<Longrightarrow> le_by fns b c \<Longrightarrow> le_by fns a c"
  unfolding consistent_on_def by blast

lemma le_by_total:
  assumes "consistent_on fns X" "a \<in> X" "b \<in> X"
  shows "le_by fns a b \<or> le_by fns b a"
proof -
  from assms obtain c where c: "compare fns a b = Inr c"
    unfolding consistent_on_def returns_on_iff by blast
  show ?thesis
  proof (cases "sint c \<le> 0")
    case True
    with c show ?thesis by (auto simp: le_by_iff)
  next
    case False
    with c have "greater_by fns a b" by (auto simp: greater_by_iff)
    with assms have "less_by fns b a" unfolding consistent_on_def by blast
    then show ?thesis by (simp add: less_le_by)
  qed
qed

lemma ordered_ready: "ordered fns s st \<Longrightarrow> ready fns s st"
  by (simp add: ordered_def ready_def consistent_on_def)

lemma ordered_frame:
  "ordered fns s st \<Longrightarrow> frame (Value_start s) (Value_len s) st st' \<Longrightarrow> ordered fns s st'"
  by (auto simp: ordered_def frame_window_set intro: valid_view_frame simp: frame_def)

lemma ordered_Slice:
  assumes "ordered fns s st" "i \<le> j" "j \<le> Value_len s"
  shows "\<exists>s'. Slice_Slice s (int i) (int j) = Inr s' \<and> ordered fns s' st
     \<and> Value_start s' = Value_start s + i \<and> Value_len s' = j - i"
proof -
  from assms have v: "valid_view s st" by (simp add: ordered_def)
  from Slice_in [OF v assms(2,3)] obtain s' where s': "Slice_Slice s (int i) (int j) = Inr s'"
    "valid_view s' st" "Value_start s' = Value_start s + i" "Value_len s' = j - i" by blast
  from v have "Value_start s + Value_len s \<le> length st" by (simp add: valid_view_def)
  from window_sub [OF s'(3,4) assms(2,3) this] assms(1)
  have "consistent_on fns (set (window s' st))"
    unfolding ordered_def by (blast intro: consistent_on_subset)
  with s' show ?thesis by (auto simp: ordered_def)
qed

lemma window_elem:
  assumes "Value_start s + Value_len s \<le> length st" "x \<in> set (window s st)"
  shows "\<exists>j<Value_len s. x = st ! (Value_start s + j)"
proof -
  from assms(2) obtain m where "m < length (window s st)" "x = window s st ! m"
    by (metis in_set_conv_nth)
  with length_window [OF assms(1)] nth_window [OF assms(1)] show ?thesis by auto
qed

lemma le_ge_by:
  assumes "consistent_on fns X" "a \<in> X" "b \<in> X" "le_by fns a b"
  shows "ge_by fns b a"
proof -
  from assms(1-3) obtain c where c: "compare fns b a = Inr c"
    unfolding consistent_on_def returns_on_iff by blast
  from assms(4) have "\<not> greater_by fns a b" by (auto simp: le_by_iff greater_by_iff)
  with assms(1-3) have "\<not> less_by fns b a" unfolding consistent_on_def by blast
  with c show ?thesis by (auto simp: less_by_iff ge_by_iff not_less)
qed

text \<open>
  Counting the elements of a list that have a property: the element at \<open>k\<close> of a list
  split at \<open>k\<close> compares equal to the element at \<open>k\<close> of every sorted list of the same
  elements.
\<close>

lemma filter_prefix_free:
  "\<forall>i\<le>k. \<not> P (w ! i) \<Longrightarrow> k < length w \<Longrightarrow> length (filter P w) \<le> length w - Suc k"
proof -
  assume a: "\<forall>i\<le>k. \<not> P (w ! i)" and k: "k < length w"
  have "{i. i < length w \<and> P (w ! i)} \<subseteq> {Suc k..<length w}"
    using a by (auto simp: Suc_le_eq not_le [symmetric])
  then have "card {i. i < length w \<and> P (w ! i)} \<le> card {Suc k..<length w}"
    by (intro card_mono) auto
  then show ?thesis by (simp add: length_filter_conv_card)
qed

lemma filter_suffix_all:
  "\<forall>j. k \<le> j \<and> j < length t \<longrightarrow> P (t ! j) \<Longrightarrow> length t - k \<le> length (filter P t)"
proof -
  assume a: "\<forall>j. k \<le> j \<and> j < length t \<longrightarrow> P (t ! j)"
  have "{k..<length t} \<subseteq> {i. i < length t \<and> P (t ! i)}"
    using a by auto
  then have "card {k..<length t} \<le> card {i. i < length t \<and> P (t ! i)}"
    by (intro card_mono) auto
  then show ?thesis by (simp add: length_filter_conv_card)
qed

lemma filter_suffix_free:
  "\<forall>i. k \<le> i \<and> i < length w \<longrightarrow> \<not> P (w ! i) \<Longrightarrow> length (filter P w) \<le> k"
proof -
  assume a: "\<forall>i. k \<le> i \<and> i < length w \<longrightarrow> \<not> P (w ! i)"
  have "{i. i < length w \<and> P (w ! i)} \<subseteq> {..<k}"
    using a by (auto simp: not_le [symmetric])
  then have "card {i. i < length w \<and> P (w ! i)} \<le> card {..<k}"
    by (intro card_mono) auto
  then show ?thesis by (simp add: length_filter_conv_card)
qed

lemma filter_prefix_all:
  "\<forall>j\<le>k. P (t ! j) \<Longrightarrow> k < length t \<Longrightarrow> Suc k \<le> length (filter P t)"
proof -
  assume a: "\<forall>j\<le>k. P (t ! j)" and k: "k < length t"
  have "{..k} \<subseteq> {i. i < length t \<and> P (t ! i)}"
    using a k by auto
  then have "card {..k} \<le> card {i. i < length t \<and> P (t ! i)}"
    by (intro card_mono) auto
  then show ?thesis by (simp add: length_filter_conv_card)
qed

lemma filter_length_mset:
  "mset t = mset w \<Longrightarrow> length (filter P t) = length (filter P w)"
  by (metis mset_filter size_mset)

lemma le_by_antisym:
  assumes "consistent_on fns X" "a \<in> X" "b \<in> X" "le_by fns a b" "le_by fns b a"
  shows "equal_by fns a b"
proof -
  from assms(4) obtain c where c: "compare fns a b = Inr c" "sint c \<le> 0" by (auto simp: le_by_iff)
  from assms(5) have "\<not> greater_by fns b a" by (auto simp: le_by_iff greater_by_iff)
  with assms(1-3) have "\<not> less_by fns a b" unfolding consistent_on_def by blast
  with c have "sint c = 0" by (auto simp: less_by_iff)
  then have "c = 0" by (simp add: signed_eq_0_iff)
  with c show ?thesis by (simp add: equal_by_def)
qed

lemma kth_of_sorted:
  assumes X: "consistent_on fns X" and w: "set w \<subseteq> X" and k: "k < length w"
    and lo: "\<forall>i<k. le_by fns (w ! i) (w ! k)"
    and hi: "\<forall>i. k < i \<and> i < length w \<longrightarrow> le_by fns (w ! k) (w ! i)"
    and t: "mset t = mset w" "sorted_wrt (le_by fns) t"
  shows "equal_by fns (t ! k) (w ! k)"
proof -
  from t(1) have len: "length t = length w" by (rule mset_eq_length)
  from t(1) have st: "set t = set w" by (rule mset_eq_setD)
  have tX: "t ! j \<in> X" if "j < length w" for j using that w st len nth_mem [of j t] by auto
  have wX: "w ! j \<in> X" if "j < length w" for j using that w nth_mem [of j w] by auto
  let ?x = "w ! k" and ?y = "t ! k"
  have tle: "le_by fns (t ! i) (t ! j)" if "i \<le> j" "j < length w" for i j
  proof (cases "i = j")
    case True
    with le_by_refl [OF X tX [OF that(2)]] show ?thesis by simp
  next
    case False
    with that t(2) len show ?thesis by (simp add: sorted_wrt_iff_nth_less)
  qed
  have wlo: "le_by fns (w ! i) ?x" if "i \<le> k" for i
    using that lo le_by_refl [OF X wX [OF k]] by (cases "i = k") auto
  have whi: "le_by fns ?x (w ! i)" if "k \<le> i" "i < length w" for i
    using that hi le_by_refl [OF X wX [OF k]] by (cases "i = k") auto
  have 1: "le_by fns ?y ?x"
  proof (rule ccontr)
    assume n: "\<not> le_by fns ?y ?x"
    let ?P = "\<lambda>z. \<not> le_by fns z ?x"
    have "\<forall>j. k \<le> j \<and> j < length t \<longrightarrow> ?P (t ! j)"
    proof (intro allI impI notI)
      fix j assume j: "k \<le> j \<and> j < length t" and l: "le_by fns (t ! j) ?x"
      from j len have jl: "j < length w" by simp
      from le_by_trans [OF X tX [OF k] tX [OF jl] wX [OF k] tle l] j jl n show False by simp
    qed
    from filter_suffix_all [OF this] have "length w - k \<le> length (filter ?P t)" by (simp add: len)
    moreover have "\<forall>i\<le>k. \<not> ?P (w ! i)" using wlo by simp
    from filter_prefix_free [OF this k] have "length (filter ?P w) \<le> length w - Suc k" .
    ultimately show False using filter_length_mset [OF t(1), of ?P] k by simp
  qed
  have 2: "le_by fns ?x ?y"
  proof (rule ccontr)
    assume n: "\<not> le_by fns ?x ?y"
    let ?Q = "\<lambda>z. \<not> le_by fns ?x z"
    have "\<forall>j\<le>k. ?Q (t ! j)"
    proof (intro allI impI notI)
      fix j assume j: "j \<le> k" and l: "le_by fns ?x (t ! j)"
      from j k have jl: "j < length w" by simp
      from le_by_trans [OF X wX [OF k] tX [OF jl] tX [OF k] l tle] j k n show False by simp
    qed
    from filter_prefix_all [OF this] k have "Suc k \<le> length (filter ?Q t)" by (simp add: len)
    moreover have "\<forall>i. k \<le> i \<and> i < length w \<longrightarrow> \<not> ?Q (w ! i)" using whi by simp
    from filter_suffix_free [OF this] have "length (filter ?Q w) \<le> k" .
    ultimately show False using filter_length_mset [OF t(1), of ?Q] by simp
  qed
  from le_by_antisym [OF X tX [OF k] wX [OF k] 1 2] show ?thesis .
qed

lemma ex_sorted_perm:
  assumes X: "consistent_on fns X"
  shows "set xs \<subseteq> X \<Longrightarrow> \<exists>t. mset t = mset xs \<and> sorted_wrt (le_by fns) t"
proof (induction xs)
  case Nil
  then show ?case by simp
next
  case (Cons x xs)
  then obtain t where t: "mset t = mset xs" "sorted_wrt (le_by fns) t" by auto
  from t(1) Cons.prems have tX: "set t \<subseteq> X" and x: "x \<in> X"
    using mset_eq_setD by fastforce+
  let ?u = "filter (\<lambda>y. \<not> le_by fns x y) t @ x # filter (le_by fns x) t"
  have "mset ?u = mset (x # xs)"
    using t(1) by (simp add: not_def [symmetric])
  moreover have "sorted_wrt (le_by fns) ?u"
  proof -
    have a: "le_by fns y x" if "y \<in> set t" "\<not> le_by fns x y" for y
      using le_by_total [OF X x, of y] that tX by auto
    have b: "le_by fns y z" if "y \<in> set t" "\<not> le_by fns x y" "z \<in> set t" "le_by fns x z" for y z
      using le_by_trans [OF X _ x _ a [OF that(1,2)] that(4)] that tX by auto
    show ?thesis
      using t(2) a b by (auto simp: sorted_wrt_append sorted_wrt_filter)
  qed
  ultimately show ?case by blast
qed

lemma ex_sorted_with_kth:
  assumes X: "consistent_on fns X" and w: "set w \<subseteq> X" and k: "k < length w"
    and lo: "\<forall>i<k. le_by fns (w ! i) (w ! k)"
    and hi: "\<forall>i. k < i \<and> i < length w \<longrightarrow> le_by fns (w ! k) (w ! i)"
  shows "\<exists>t. mset t = mset w \<and> sorted_wrt (le_by fns) t \<and> t ! k = w ! k"
proof -
  have wX: "w ! j \<in> X" if "j < length w" for j using that w nth_mem [of j w] by auto
  have "set (take k w) \<subseteq> X" "set (drop (Suc k) w) \<subseteq> X"
    using w by (auto dest: in_set_takeD in_set_dropD)
  from ex_sorted_perm [OF X this(1)] ex_sorted_perm [OF X this(2)] obtain tp ts where
    tp: "mset tp = mset (take k w)" "sorted_wrt (le_by fns) tp"
    and ts: "mset ts = mset (drop (Suc k) w)" "sorted_wrt (le_by fns) ts"
    by blast
  have ltp: "length tp = k" using mset_eq_length [OF tp(1)] k by simp
  have stp: "set tp = set (take k w)" and sts: "set ts = set (drop (Suc k) w)"
    using tp(1) ts(1) by (auto dest: mset_eq_setD)
  have a: "le_by fns y (w ! k)" "y \<in> X" if "y \<in> set tp" for y
  proof -
    from that stp obtain i where "i < k" "y = w ! i"
      using k by (auto simp: in_set_conv_nth)
    with lo wX k show "le_by fns y (w ! k)" "y \<in> X" by auto
  qed
  have b: "le_by fns (w ! k) z" "z \<in> X" if "z \<in> set ts" for z
  proof -
    from that sts obtain j where "j < length w - Suc k" "z = w ! (Suc k + j)"
      by (auto simp: in_set_conv_nth)
    then obtain i where "Suc k \<le> i" "i < length w" "z = w ! i"
      by (intro that [of "Suc k + j"]) auto
    with hi wX show "le_by fns (w ! k) z" "z \<in> X" by auto
  qed
  have c: "le_by fns y z" if "y \<in> set tp" "z \<in> set ts" for y z
    using le_by_trans [OF X a(2) [OF that(1)] wX [OF k] b(2) [OF that(2)] a(1) [OF that(1)] b(1) [OF that(2)]] .
  let ?t = "tp @ w ! k # ts"
  have "mset ?t = mset (take k w @ w ! k # drop (Suc k) w)" by (simp add: tp ts)
  then have "mset ?t = mset w" using id_take_nth_drop [OF k] by simp
  moreover have "sorted_wrt (le_by fns) ?t"
    using tp(2) ts(2) a(1) b(1) c by (auto simp: sorted_wrt_append)
  moreover have "?t ! k = w ! k" using ltp by (simp add: nth_append)
  ultimately show ?thesis by blast
qed

section \<open>Select leaves the k-th element at k\<close>

text \<open>
  Every round of the loop leaves the pivot at its place \<open>c\<close>, the elements before it
  below it and the elements after it not below it, and goes on in the part that holds
  \<open>k\<close>: what the other part holds stays on its side of the element that ends at \<open>k\<close>.
\<close>

lemma Select_loop_spec:
  "ordered fns s st \<Longrightarrow> k < Value_len s \<Longrightarrow>
   \<exists>st'. Select_loop fns s (int k) st = (Inr (), st')
     \<and> frame (Value_start s) (Value_len s) st st'
     \<and> (\<forall>i<k. le_by fns (st' ! (Value_start s + i)) (st' ! (Value_start s + k)))
     \<and> (\<forall>i. k < i \<and> i < Value_len s \<longrightarrow>
           le_by fns (st' ! (Value_start s + k)) (st' ! (Value_start s + i)))"
proof (induction "Value_len s" arbitrary: s k st rule: less_induct)
  case less
  define a where "a = Value_start s"
  define n where "n = Value_len s"
  note o0 = less.prems(1)
  have k: "k < n" using less.prems(2) by (simp add: n_def)
  from Fns_pivot_frame [OF ordered_ready [OF o0]] obtain st1 where
    pv: "Fns_pivot fns s st = (Inr (), st1)" and f1: "frame a n st st1"
    by (auto simp: a_def n_def)
  note o1 = ordered_frame [OF o0 f1 [unfolded a_def n_def]]
  have "0 < Value_len s" using less.prems(2) by simp
  from Fns_partition_spec [OF ordered_ready [OF o1] this] obtain c st2 where
    pt: "Fns_partition fns s 0 st1 = (Inr (int c), st2)" and c: "c < n"
    and f2: "frame a n st1 st2"
    and lo: "\<forall>i<c. less_by fns (st2 ! (a + i)) (st2 ! (a + c))"
    and hi: "\<forall>i. c < i \<and> i < n \<longrightarrow> ge_by fns (st2 ! (a + i)) (st2 ! (a + c))"
    by (auto simp: a_def n_def)
  note o2 = ordered_frame [OF o1 f2 [unfolded a_def n_def]]
  then have v2: "valid_view s st2" and X: "consistent_on fns (set (window s st2))"
    by (simp_all add: ordered_def)
  from v2 have len2: "Value_start s + Value_len s \<le> length st2" by (simp add: valid_view_def)
  have inX: "st2 ! (a + i) \<in> set (window s st2)" if "i < n" for i
    using in_window [OF len2, of i] that by (simp add: a_def n_def)
  have lo_le: "le_by fns (st2 ! (a + i)) (st2 ! (a + c))" if "i \<le> c" for i
  proof (cases "i = c")
    case True
    with le_by_refl [OF X inX [OF c]] show ?thesis by simp
  next
    case False
    with that lo show ?thesis by (simp add: less_le_by)
  qed
  have hi_le: "le_by fns (st2 ! (a + c)) (st2 ! (a + i))" if "c \<le> i" "i < n" for i
  proof (cases "i = c")
    case True
    with le_by_refl [OF X inX [OF c]] show ?thesis by simp
  next
    case False
    with that hi have "ge_by fns (st2 ! (a + i)) (st2 ! (a + c))" by simp
    from ge_le_by [OF X inX [OF that(2)] inX [OF c] this] show ?thesis .
  qed
  have step: "Select_loop fns s (int k) st =
      (if int c = int k then (Inr (), st2)
       else if int c < int k then
         (case Slice_Slice s (int c + 1) (Len s) of
            Inl e \<Rightarrow> (Inl e, st2)
          | Inr s' \<Rightarrow> Select_loop fns s' (int k - (int c + 1)) st2)
       else
         (case Slice_Slice s 0 (int c) of
            Inl e \<Rightarrow> (Inl e, st2)
          | Inr s' \<Rightarrow> Select_loop fns s' (int k) st2))"
    by (subst Select_loop.simps) (simp only: pv pt prod.case sum.case)
  consider "c = k" | "c < k" | "k < c" by linarith
  then show ?case
  proof cases
    case 1
    with step have "Select_loop fns s (int k) st = (Inr (), st2)" by simp
    moreover have "frame a n st st2" using f1 f2 by (rule frame_trans)
    ultimately show ?thesis using lo_le hi_le 1 by (auto simp: a_def n_def)
  next
    case 2
    from ordered_Slice [OF o2, of "Suc c" n] c obtain s' where
      s': "Slice_Slice s (int (Suc c)) (int n) = Inr s'" "ordered fns s' st2"
      "Value_start s' = a + Suc c" "Value_len s' = n - Suc c"
      by (auto simp: a_def n_def)
    define k' where "k' = k - Suc c"
    have k': "k' < Value_len s'" "a + k = Value_start s' + k'" "int k - (int c + 1) = int k'"
      using 2 k by (simp_all add: k'_def s')
    have "Value_len s' < Value_len s" using c by (simp add: s' n_def)
    from less.hyps [OF this s'(2) k'(1)] obtain st' where
      r: "Select_loop fns s' (int k') st2 = (Inr (), st')"
      and f3: "frame (Value_start s') (Value_len s') st2 st'"
      and P1: "\<forall>i<k'. le_by fns (st' ! (Value_start s' + i)) (st' ! (Value_start s' + k'))"
      and P2: "\<forall>i. k' < i \<and> i < Value_len s' \<longrightarrow>
                le_by fns (st' ! (Value_start s' + k')) (st' ! (Value_start s' + i))"
      by blast
    have "int k - (1 + int c) = int k'" using k'(3) by simp
    then have res: "Select_loop fns s (int k) st = (Inr (), st')"
      using step 2 s'(1) r by (simp add: Len_def n_def [symmetric] add.commute)
    have f3': "frame a n st2 st'" using f3 c by (auto intro: frame_sub simp: s')
    have fr: "frame a n st st'" using f1 f2 f3' by (blast intro: frame_trans)
    have same: "st' ! (a + i) = st2 ! (a + i)" if "i \<le> c" for i
      using f3 that len2 c by (simp add: frame_def s' a_def n_def)
    from s'(2) have "Value_start s' + Value_len s' \<le> length st2"
      by (simp add: ordered_def valid_view_def)
    then have len': "Value_start s' + Value_len s' \<le> length st'" using f3 by (simp add: frame_def)
    have "st' ! (a + k) \<in> set (window s' st')"
      using in_window [OF len' k'(1)] k'(2) by simp
    then have "st' ! (a + k) \<in> set (window s' st2)" using frame_window_set [OF f3] by simp
    from window_elem [OF \<open>Value_start s' + Value_len s' \<le> length st2\<close> this]
    obtain j where j: "j < n - Suc c" "st' ! (a + k) = st2 ! (a + (Suc c + j))"
      by (auto simp: s' add.assoc)
    have tgt: "le_by fns (st2 ! (a + c)) (st' ! (a + k))" "st' ! (a + k) \<in> set (window s st2)"
      using hi_le [of "Suc c + j"] inX [of "Suc c + j"] j by simp_all
    have A: "le_by fns (st' ! (a + i)) (st' ! (a + k))" if "i < k" for i
    proof (cases "i \<le> c")
      case True
      from le_by_trans [OF X inX inX [OF c] tgt(2) lo_le [OF True] tgt(1)] True c
      show ?thesis by (simp add: same)
    next
      case False
      with that have "i - Suc c < k'" "a + i = Value_start s' + (i - Suc c)"
        by (simp_all add: k'_def s')
      with P1 k'(2) show ?thesis by simp
    qed
    have B: "le_by fns (st' ! (a + k)) (st' ! (a + i))" if "k < i \<and> i < n" for i
    proof -
      from that 2 have "k' < i - Suc c \<and> i - Suc c < Value_len s'"
        "a + i = Value_start s' + (i - Suc c)"
        by (auto simp: k'_def s')
      with P2 k'(2) show ?thesis by simp
    qed
    from res fr A B show ?thesis by (auto simp: a_def n_def)
  next
    case 3
    from ordered_Slice [OF o2, of 0 c] c obtain s' where
      s': "Slice_Slice s 0 (int c) = Inr s'" "ordered fns s' st2"
      "Value_start s' = a" "Value_len s' = c"
      by (auto simp: a_def n_def)
    have "Value_len s' < Value_len s" using c by (simp add: s' n_def)
    from less.hyps [OF this s'(2), of k] 3 obtain st' where
      r: "Select_loop fns s' (int k) st2 = (Inr (), st')"
      and f3: "frame a c st2 st'"
      and P1: "\<forall>i<k. le_by fns (st' ! (a + i)) (st' ! (a + k))"
      and P2: "\<forall>i. k < i \<and> i < c \<longrightarrow> le_by fns (st' ! (a + k)) (st' ! (a + i))"
      by (auto simp: s')
    have res: "Select_loop fns s (int k) st = (Inr (), st')"
      using step 3 s'(1) r by simp
    have f3': "frame a n st2 st'" using f3 c by (auto intro: frame_sub)
    have fr: "frame a n st st'" using f1 f2 f3' by (blast intro: frame_trans)
    have same: "st' ! (a + i) = st2 ! (a + i)" if "c \<le> i" "i < n" for i
      using f3 that len2 by (simp add: frame_def a_def n_def)
    from s'(2) have l2: "Value_start s' + Value_len s' \<le> length st2"
      by (simp add: ordered_def valid_view_def)
    then have len': "Value_start s' + Value_len s' \<le> length st'" using f3 by (simp add: frame_def)
    have "st' ! (a + k) \<in> set (window s' st')"
      using in_window [OF len', of k] 3 by (simp add: s')
    then have "st' ! (a + k) \<in> set (window s' st2)"
      using frame_window_set [of s' st2 st'] f3 by (simp add: s')
    from window_elem [OF l2 this]
    obtain j where j: "j < c" "st' ! (a + k) = st2 ! (a + j)"
      by (auto simp: s')
    have tgt: "le_by fns (st' ! (a + k)) (st2 ! (a + c))" "st' ! (a + k) \<in> set (window s st2)"
      using lo_le [of j] inX [of j] j c by simp_all
    have B: "le_by fns (st' ! (a + k)) (st' ! (a + i))" if "k < i \<and> i < n" for i
    proof (cases "c \<le> i")
      case True
      with that have i: "i < n" by simp
      from le_by_trans [OF X tgt(2) inX [OF c] inX [OF i] tgt(1) hi_le [OF True i]]
      show ?thesis by (simp add: same [OF True i])
    next
      case False
      with that P2 show ?thesis by simp
    qed
    from res fr P1 B show ?thesis by (auto simp: a_def n_def)
  qed
qed

text \<open>
  Claim C1. Take a slice that lies in the store and that the comparator accepts, a
  comparator that is a consistent order on the elements of the slice, and \<open>k\<close> within
  the slice. \<^verbatim>\<open>Select\<close> returns; the slice holds the same elements as before (as a
  multiset) and the store is unchanged outside it; every element at a position before
  \<open>k\<close> compares not above the element at \<open>k\<close>, and every element at a position after
  \<open>k\<close> compares not below it; the element at \<open>k\<close> compares equal to the element at
  \<open>k\<close> of every ascending sort of the elements, and is the element at \<open>k\<close> of one of
  them.
\<close>

theorem Select_kth:
  assumes "mustSlice fns sl = Inr s" and "in_store s st"
    and "consistent_on fns (set (window s st))"
    and "0 \<le> k" and "k < Len s"
  shows "\<exists>st'. Select fns sl k st = (Inr (), st')
      \<and> length st' = length st
      \<and> mset (window s st') = mset (window s st)
      \<and> (\<forall>q<length st. q < Value_start s \<or> Value_start s + Value_len s \<le> q \<longrightarrow> st' ! q = st ! q)
      \<and> (\<forall>i<nat k. le_by fns (window s st' ! i) (window s st' ! nat k))
      \<and> (\<forall>i. nat k < i \<and> i < Value_len s \<longrightarrow> ge_by fns (window s st' ! i) (window s st' ! nat k))
      \<and> (\<forall>t. mset t = mset (window s st) \<and> sorted_wrt (le_by fns) t \<longrightarrow>
             equal_by fns (t ! nat k) (window s st' ! nat k))
      \<and> (\<exists>t. mset t = mset (window s st) \<and> sorted_wrt (le_by fns) t
             \<and> t ! nat k = window s st' ! nat k)"
proof -
  let ?a = "Value_start s" and ?n = "Value_len s" and ?k = "nat k"
  let ?X = "set (window s st)"
  from mustSlice_valid [OF assms(1,2)] assms(3) have o: "ordered fns s st"
    by (simp add: ordered_def)
  from assms(4,5) have k: "?k < ?n" "int ?k = k" by (simp_all add: Len_def)
  from Select_loop_spec [OF o k(1)] k(2) obtain st' where
    res: "Select_loop fns s k st = (Inr (), st')"
    and f: "frame ?a ?n st st'"
    and lo: "\<forall>i<?k. le_by fns (st' ! (?a + i)) (st' ! (?a + ?k))"
    and hi: "\<forall>i. ?k < i \<and> i < ?n \<longrightarrow> le_by fns (st' ! (?a + ?k)) (st' ! (?a + i))"
    by auto
  have sel: "Select fns sl k st = (Inr (), st')"
    using assms(1,4,5) res by (simp add: Select_def)
  from assms(2) have len: "?a + ?n \<le> length st" by (simp add: in_store_def)
  with f have len': "?a + ?n \<le> length st'" by (simp add: frame_def)
  note w' = nth_window [OF len']
  let ?w = "window s st'"
  have lw: "length ?w = ?n" using length_window [OF len'] .
  have sw: "set ?w \<subseteq> ?X" using frame_window_set [OF f] by simp
  have wX: "?w ! i \<in> ?X" if "i < ?n" for i using sw lw that nth_mem [of i ?w] by auto
  have lo': "\<forall>i<?k. le_by fns (?w ! i) (?w ! ?k)" using lo k(1) by (simp add: w')
  have hi': "\<forall>i. ?k < i \<and> i < length ?w \<longrightarrow> le_by fns (?w ! ?k) (?w ! i)"
    using hi k(1) by (simp add: w' lw)
  have ge: "\<forall>i. ?k < i \<and> i < ?n \<longrightarrow> ge_by fns (?w ! i) (?w ! ?k)"
  proof (intro allI impI)
    fix i assume i: "?k < i \<and> i < ?n"
    with hi' have "le_by fns (?w ! ?k) (?w ! i)" by (simp add: lw)
    from le_ge_by [OF assms(3) wX [OF k(1)] wX this] i show "ge_by fns (?w ! i) (?w ! ?k)" by simp
  qed
  have kl: "?k < length ?w" using k(1) by (simp add: lw)
  have all: "\<forall>t. mset t = mset (window s st) \<and> sorted_wrt (le_by fns) t \<longrightarrow>
             equal_by fns (t ! ?k) (?w ! ?k)"
  proof (intro allI impI)
    fix t assume t: "mset t = mset (window s st) \<and> sorted_wrt (le_by fns) t"
    then have "mset t = mset ?w" using frame_window [OF f] by simp
    from kth_of_sorted [OF assms(3) sw kl lo' hi' this] t
    show "equal_by fns (t ! ?k) (?w ! ?k)" by simp
  qed
  from ex_sorted_with_kth [OF assms(3) sw kl lo' hi'] obtain t where
    "mset t = mset ?w" "sorted_wrt (le_by fns) t" "t ! ?k = ?w ! ?k" by blast
  then have ex: "\<exists>t. mset t = mset (window s st) \<and> sorted_wrt (le_by fns) t \<and> t ! ?k = ?w ! ?k"
    using frame_window [OF f] by auto
  from sel frame_outside [OF f] frame_window [OF f] lo' ge all ex show ?thesis
    by (intro exI [of _ st']) simp
qed

text \<open>
  A slice of the tests of the package, 4, 1, 3, 2, and \<open>k = 2\<close>: the element at 2
  compares equal to the 3 of the sorted slice 1, 2, 3, 4. With it the tests of the
  package for the parts of \<^verbatim>\<open>Select\<close>: \<^verbatim>\<open>sortSmallSlice\<close> on 5, 1, -2, 10, 4, and
  \<^verbatim>\<open>pivot\<close>, which brings 3, 3 and 8 to the front of its three slices.
\<close>

theorem Select_kth_witness:
  "\<exists>fns s st'. intFn = Inr fns
     \<and> mustSlice fns (SliceV intT 0 4 4) = Inr s
     \<and> in_store s (ints [4, 1, 3, 2])
     \<and> consistent_on fns (set (window s (ints [4, 1, 3, 2])))
     \<and> Select fns (SliceV intT 0 4 4) 2 (ints [4, 1, 3, 2]) = (Inr (), st')
     \<and> st' = ints [1, 2, 3, 4]
     \<and> mset st' = mset (ints [4, 1, 3, 2])
     \<and> equal_by fns (ints [1, 2, 3, 4] ! 2) (st' ! 2)
     \<and> le_by fns (st' ! 0) (st' ! 2) \<and> le_by fns (st' ! 1) (st' ! 2)
     \<and> ge_by fns (st' ! 3) (st' ! 2)
     \<and> (\<exists>p. NewSlice (SliceV intT 0 5 5 :: go_int rvalue) = Inr (Inr p)
            \<and> sortSmallSlice fns p (ints [5, 1, - 2, 10, 4]) = (Inr (), ints [- 2, 1, 4, 5, 10])
            \<and> Fns_pivot fns p (ints [5, 4, 2, 3, 1]) = (Inr (), ints [3, 2, 1, 4, 5]))
     \<and> (\<exists>p st9. NewSlice (SliceV intT 0 9 9 :: go_int rvalue) = Inr (Inr p)
            \<and> Fns_pivot fns p (ints [5, 4, 2, 3, 1, 10, 9, 8, 7]) = (Inr (), st9)
            \<and> st9 ! 0 = Val intT 3)
     \<and> (\<exists>p st13. NewSlice (SliceV intT 0 13 13 :: go_int rvalue) = Inr (Inr p)
            \<and> Fns_pivot fns p (ints [5, 4, 2, 3, 1, 10, 9, 8, 7, 6, 15, 14, 13]) = (Inr (), st13)
            \<and> st13 ! 0 = Val intT 8)"
proof -
  from intFn_compare obtain fns where f: "intFn = Inr fns" "check fns intT = Inr True"
    "\<forall>x y. compare fns (Val intT x) (Val intT y) = Inr (x - y)" by blast
  let ?s = "\<lparr>Value_elem = intT, Value_start = 0, Value_len = 4, Value_cap = 4,
            swap_start = 0, swap_len = 4, swapOffset = 0\<rparr>"
  let ?st = "ints [4, 1, 3, 2]"
  note m = intFn_view [OF f(2), of 4]
  have i: "in_store ?s ?st" by (simp add: in_store_def ints_def)
  have w: "window ?s ?st = ?st" by (simp add: window_def ints_def)
  have o: "consistent_on fns (set (window ?s ?st))"
    unfolding w
    by (simp add: consistent_on_def returns_on_iff less_by_iff greater_by_iff le_by_iff ints_def f)
  from Select_kth [OF m i o, of 2] obtain st' where
    sel: "Select fns (SliceV intT 0 4 4) 2 ?st = (Inr (), st')"
    and len: "length st' = length ?st"
    and ms: "mset (window ?s st') = mset (window ?s ?st)"
    and lo: "\<forall>i<nat 2. le_by fns (window ?s st' ! i) (window ?s st' ! nat 2)"
    and hi: "\<forall>i. nat 2 < i \<and> i < Value_len ?s \<longrightarrow>
               ge_by fns (window ?s st' ! i) (window ?s st' ! nat 2)"
    and srt: "\<forall>t. mset t = mset (window ?s ?st) \<and> sorted_wrt (le_by fns) t \<longrightarrow>
               equal_by fns (t ! nat 2) (window ?s st' ! nat 2)"
    by (auto simp: Len_def)
  from len have w': "window ?s st' = st'" by (simp add: window_def ints_def)
  have t: "mset (ints [1, 2, 3, 4]) = mset (window ?s ?st)
         \<and> sorted_wrt (le_by fns) (ints [1, 2, 3, 4])"
    unfolding w by (simp add: ints_def le_by_iff f)
  from srt [rule_format, OF t] have 1: "equal_by fns (ints [1, 2, 3, 4] ! 2) (st' ! 2)"
    by (simp add: w')
  from lo [rule_format, of 0] lo [rule_format, of 1]
  have 2: "le_by fns (st' ! 0) (st' ! 2)" "le_by fns (st' ! 1) (st' ! 2)"
    by (simp_all add: w')
  from hi [rule_format, of 3] have 3: "ge_by fns (st' ! 3) (st' ! 2)"
    by (simp add: w')
  from ms have 4: "mset st' = mset ?st" by (simp add: w w')
  have "Select fns (SliceV intT 0 4 4) 2 ?st = (Inr (), ints [1, 2, 3, 4])"
    by (simp add: Select_def m Select_loop.simps Fns_pivot.simps sortSmallSlice_def
        sortSmallSlice_outer.simps sortSmallSlice_inner.simps Fns_partition_def
        partition_loop.simps Slice_Slice_def Swap_def Swapper_def Index_def Len_def ints_def
        Let_def f)
  with sel have 5: "st' = ints [1, 2, 3, 4]" by simp
  have 6: "\<exists>p. NewSlice (SliceV intT 0 5 5 :: go_int rvalue) = Inr (Inr p)
            \<and> sortSmallSlice fns p (ints [5, 1, - 2, 10, 4]) = (Inr (), ints [- 2, 1, 4, 5, 10])
            \<and> Fns_pivot fns p (ints [5, 4, 2, 3, 1]) = (Inr (), ints [3, 2, 1, 4, 5])"
    by (simp add: NewSlice_def Fns_pivot.simps sortSmallSlice_def sortSmallSlice_outer.simps
        sortSmallSlice_inner.simps Swap_def Swapper_def Index_def Len_def ints_def Let_def f)
  have 7: "\<exists>p st9. NewSlice (SliceV intT 0 9 9 :: go_int rvalue) = Inr (Inr p)
            \<and> Fns_pivot fns p (ints [5, 4, 2, 3, 1, 10, 9, 8, 7]) = (Inr (), st9)
            \<and> st9 ! 0 = Val intT 3"
    by (simp add: NewSlice_def Fns_pivot.simps pivot_groups.simps sortSmallSlice_def
        sortSmallSlice_outer.simps sortSmallSlice_inner.simps Slice_Slice_def Swap_def
        Swapper_def Index_def Len_def minInt_def ints_def Let_def f)
  have 8: "\<exists>p st13. NewSlice (SliceV intT 0 13 13 :: go_int rvalue) = Inr (Inr p)
            \<and> Fns_pivot fns p (ints [5, 4, 2, 3, 1, 10, 9, 8, 7, 6, 15, 14, 13]) = (Inr (), st13)
            \<and> st13 ! 0 = Val intT 8"
    by (simp add: NewSlice_def Fns_pivot.simps pivot_groups.simps sortSmallSlice_def
        sortSmallSlice_outer.simps sortSmallSlice_inner.simps Slice_Slice_def Swap_def
        Swapper_def Index_def Len_def minInt_def ints_def Let_def f)
  from f(1) m i o sel 5 4 1 2 3 6 7 8 show ?thesis by blast
qed

section \<open>Select and its bounds\<close>

text \<open>No loop of \<^verbatim>\<open>Select\<close> panics with the message of the check of \<open>k\<close>.\<close>

lemma Index_panic: "Index s i = Inl p \<Longrightarrow> in_loop p"
  by (auto simp: Index_def split: if_splits)

lemma Swap_panic: "Swap s i j st = (Inl p, st') \<Longrightarrow> in_loop p"
  by (auto simp: Swap_def Swapper_def split: if_splits)

lemma Slice_panic: "Slice_Slice s i j = Inl p \<Longrightarrow> in_loop p"
  by (auto simp: Slice_Slice_def split: if_splits)

lemma sortSmallSlice_inner_panic:
  "sortSmallSlice_inner fns s j st = (Inl p, st') \<Longrightarrow> in_loop p"
proof (induction fns s j st rule: sortSmallSlice_inner.induct)
  case (1 fns s j st)
  from "1.prems" show ?case
    by (subst (asm) sortSmallSlice_inner.simps)
       (auto split: if_splits sum.splits prod.splits
             dest: Index_panic Swap_panic intro: "1.IH")
qed

lemma sortSmallSlice_outer_panic:
  "sortSmallSlice_outer fns s i st = (Inl p, st') \<Longrightarrow> in_loop p"
proof (induction fns s i st rule: sortSmallSlice_outer.induct)
  case (1 fns s i st)
  from "1.prems" show ?case
    by (subst (asm) sortSmallSlice_outer.simps)
       (auto split: if_splits sum.splits prod.splits
             dest: sortSmallSlice_inner_panic intro: "1.IH")
qed

lemma sortSmallSlice_panic:
  "sortSmallSlice fns s st = (Inl p, st') \<Longrightarrow> in_loop p"
  by (auto simp: sortSmallSlice_def dest: sortSmallSlice_outer_panic)

lemma pivot_groups_panic:
  "pivot_groups fns s n left medLen st = (Inl p, st') \<Longrightarrow> in_loop p"
proof (induction fns s n left medLen st rule: pivot_groups.induct)
  case (1 fns s n left medLen st)
  from "1.prems" show ?case
    by (subst (asm) pivot_groups.simps)
       (auto simp: Let_def split: if_splits sum.splits prod.splits
             dest: Slice_panic sortSmallSlice_panic Swap_panic intro: "1.IH")
qed

lemma Fns_pivot_panic:
  "Fns_pivot fns s st = (Inl p, st') \<Longrightarrow> in_loop p"
proof (induction fns s st rule: Fns_pivot.induct)
  case (1 fns s st)
  from "1.prems" show ?case
    by (subst (asm) Fns_pivot.simps)
       (auto simp: Let_def split: if_splits sum.splits prod.splits
             dest: Slice_panic sortSmallSlice_panic Swap_panic pivot_groups_panic intro: "1.IH")
qed

lemma partition_loop_panic:
  "partition_loop fns s pivot n i cursor st = (Inl p, st') \<Longrightarrow> in_loop p"
proof (induction fns s pivot n i cursor st rule: partition_loop.induct)
  case (1 fns s pivot n i cursor st)
  from "1.prems" show ?case
    by (subst (asm) partition_loop.simps)
       (auto split: if_splits sum.splits prod.splits
             dest: Index_panic Swap_panic intro: "1.IH")
qed

lemma Fns_partition_panic:
  "Fns_partition fns s p0 st = (Inl p, st') \<Longrightarrow> in_loop p"
  by (auto simp: Fns_partition_def Let_def split: sum.splits prod.splits
           dest: Index_panic Swap_panic partition_loop_panic)

lemma Select_loop_panic:
  "Select_loop fns s k st = (Inl p, st') \<Longrightarrow> in_loop p"
proof (induction fns s k st rule: Select_loop.induct)
  case (1 fns s k st)
  from "1.prems" show ?case
    by (subst (asm) Select_loop.simps)
       (auto split: if_splits sum.splits prod.splits
             dest: Slice_panic Fns_pivot_panic Fns_partition_panic intro: "1.IH")
qed

text \<open>Where every comparison returns, the loop of \<^verbatim>\<open>Select\<close> returns.\<close>

lemma Select_loop_returns:
  "ready fns s st \<Longrightarrow> k < Value_len s \<Longrightarrow>
   \<exists>st'. Select_loop fns s (int k) st = (Inr (), st')
     \<and> frame (Value_start s) (Value_len s) st st'"
proof (induction "Value_len s" arbitrary: s k st rule: less_induct)
  case less
  define a where "a = Value_start s"
  define n where "n = Value_len s"
  note r0 = less.prems(1)
  have k: "k < n" using less.prems(2) by (simp add: n_def)
  from Fns_pivot_frame [OF r0] obtain st1 where
    pv: "Fns_pivot fns s st = (Inr (), st1)" and f1: "frame a n st st1"
    by (auto simp: a_def n_def)
  note r1 = ready_frame [OF r0 f1 [unfolded a_def n_def]]
  have "0 < Value_len s" using less.prems(2) by simp
  from Fns_partition_spec [OF r1 this] obtain c st2 where
    pt: "Fns_partition fns s 0 st1 = (Inr (int c), st2)" and c: "c < n"
    and f2: "frame a n st1 st2"
    by (auto simp: a_def n_def)
  note r2 = ready_frame [OF r1 f2 [unfolded a_def n_def]]
  have step: "Select_loop fns s (int k) st =
      (if int c = int k then (Inr (), st2)
       else if int c < int k then
         (case Slice_Slice s (int c + 1) (Len s) of
            Inl e \<Rightarrow> (Inl e, st2)
          | Inr s' \<Rightarrow> Select_loop fns s' (int k - (int c + 1)) st2)
       else
         (case Slice_Slice s 0 (int c) of
            Inl e \<Rightarrow> (Inl e, st2)
          | Inr s' \<Rightarrow> Select_loop fns s' (int k) st2))"
    by (subst Select_loop.simps) (simp only: pv pt prod.case sum.case)
  consider "c = k" | "c < k" | "k < c" by linarith
  then show ?case
  proof cases
    case 1
    with step have "Select_loop fns s (int k) st = (Inr (), st2)" by simp
    moreover have "frame a n st st2" using f1 f2 by (rule frame_trans)
    ultimately show ?thesis by (auto simp: a_def n_def)
  next
    case 2
    from ready_Slice [OF r2, of "Suc c" n] c obtain s' where
      s': "Slice_Slice s (int (Suc c)) (int n) = Inr s'" "ready fns s' st2"
      "Value_start s' = a + Suc c" "Value_len s' = n - Suc c"
      by (auto simp: a_def n_def)
    define k' where "k' = k - Suc c"
    have k': "k' < Value_len s'" "int k - (int c + 1) = int k'"
      using 2 k by (simp_all add: k'_def s')
    have "Value_len s' < Value_len s" using c by (simp add: s' n_def)
    from less.hyps [OF this s'(2) k'(1)] obtain st' where
      r: "Select_loop fns s' (int k') st2 = (Inr (), st')"
      and f3: "frame (Value_start s') (Value_len s') st2 st'"
      by blast
    have "int k - (1 + int c) = int k'" using k'(2) by simp
    then have res: "Select_loop fns s (int k) st = (Inr (), st')"
      using step 2 s'(1) r by (simp add: Len_def n_def [symmetric] add.commute)
    have f3': "frame a n st2 st'" using f3 c by (auto intro: frame_sub simp: s')
    have fr: "frame a n st st'" using f1 f2 f3' by (blast intro: frame_trans)
    from res fr show ?thesis by (auto simp: a_def n_def)
  next
    case 3
    from ready_Slice [OF r2, of 0 c] c obtain s' where
      s': "Slice_Slice s 0 (int c) = Inr s'" "ready fns s' st2"
      "Value_start s' = a" "Value_len s' = c"
      by (auto simp: a_def n_def)
    have "Value_len s' < Value_len s" using c by (simp add: s' n_def)
    from less.hyps [OF this s'(2), of k] 3 obtain st' where
      r: "Select_loop fns s' (int k) st2 = (Inr (), st')"
      and f3: "frame a c st2 st'"
      by (auto simp: s')
    have res: "Select_loop fns s (int k) st = (Inr (), st')"
      using step 3 s'(1) r by simp
    have f3': "frame a n st2 st'" using f3 c by (auto intro: frame_sub)
    have fr: "frame a n st st'" using f1 f2 f3' by (blast intro: frame_trans)
    from res fr show ?thesis by (auto simp: a_def n_def)
  qed
qed

text \<open>
  Claim C8. Where the validation of the slice panics, \<^verbatim>\<open>Select\<close> panics with that and
  the store is unchanged. Where it passes: for \<open>k\<close> below 0 or not below the length,
  \<^verbatim>\<open>Select\<close> panics with the message that \<open>k\<close> is out of bounds, and the store is
  unchanged; for \<open>k\<close> within the slice it never panics with that message, whatever the
  comparator does, and it returns where the slice lies in the store and every comparison
  of two of its elements returns.
\<close>

theorem Select_out_of_bounds:
  "case mustSlice fns sl of
     Inl p \<Rightarrow> Select fns sl k st = (Inl p, st)
   | Inr s \<Rightarrow>
       (k < 0 \<or> Len s \<le> k \<longrightarrow> Select fns sl k st = (Inl (KOutOfBounds k (Len s)), st))
     \<and> (0 \<le> k \<and> k < Len s \<longrightarrow>
          (\<forall>k' n' st'. Select fns sl k st \<noteq> (Inl (KOutOfBounds k' n'), st')))
     \<and> (0 \<le> k \<and> k < Len s \<and> in_store s st \<and> returns_on fns (set (window s st)) \<longrightarrow>
          (\<exists>st'. Select fns sl k st = (Inr (), st')))"
proof (cases "mustSlice fns sl")
  case (Inl p)
  then show ?thesis by (simp add: Select_def)
next
  case (Inr s)
  have 1: "Select fns sl k st = (Inl (KOutOfBounds k (Len s)), st)" if "k < 0 \<or> Len s \<le> k"
    using that Inr by (auto simp: Select_def)
  have 2: "Select fns sl k st \<noteq> (Inl (KOutOfBounds k' n'), st')" if "0 \<le> k \<and> k < Len s" for k' n' st'
  proof
    assume "Select fns sl k st = (Inl (KOutOfBounds k' n'), st')"
    with that Inr have "Select_loop fns s k st = (Inl (KOutOfBounds k' n'), st')"
      by (simp add: Select_def)
    from Select_loop_panic [OF this] show False by simp
  qed
  have 3: "\<exists>st'. Select fns sl k st = (Inr (), st')"
    if "0 \<le> k \<and> k < Len s \<and> in_store s st \<and> returns_on fns (set (window s st))"
  proof -
    from that mustSlice_valid [OF Inr, of st] have r: "ready fns s st" by (simp add: ready_def)
    from that have k: "nat k < Value_len s" "int (nat k) = k" by (auto simp: Len_def)
    from Select_loop_returns [OF r k(1)] k(2) that Inr show ?thesis
      by (auto simp: Select_def)
  qed
  from 1 2 3 show ?thesis unfolding Inr sum.case by blast
qed

text \<open>
  On the slice 4, 1, 3, 2: \<open>k = 4\<close> and \<open>k = -1\<close> panic and leave the slice as it is,
  \<open>k = 3\<close> returns; on an \<^verbatim>\<open>int\<close>, which is no slice, the validation panics.
\<close>

theorem Select_out_of_bounds_witness:
  "\<exists>fns s st'. intFn = Inr fns
     \<and> mustSlice fns (SliceV intT 0 4 4) = Inr s
     \<and> in_store s (ints [4, 1, 3, 2])
     \<and> returns_on fns (set (window s (ints [4, 1, 3, 2])))
     \<and> Select fns (SliceV intT 0 4 4) 4 (ints [4, 1, 3, 2])
         = (Inl (KOutOfBounds 4 4), ints [4, 1, 3, 2])
     \<and> Select fns (SliceV intT 0 4 4) (- 1) (ints [4, 1, 3, 2])
         = (Inl (KOutOfBounds (- 1) 4), ints [4, 1, 3, 2])
     \<and> Select fns (SliceV intT 0 4 4) 3 (ints [4, 1, 3, 2]) = (Inr (), st')
     \<and> Select fns (Val intT 7) 0 (ints [4, 1, 3, 2])
         = (Inl (PanicError (NotASlice intT)), ints [4, 1, 3, 2])"
proof -
  from intFn_compare obtain fns where f: "intFn = Inr fns" "check fns intT = Inr True"
    "\<forall>x y. compare fns (Val intT x) (Val intT y) = Inr (x - y)" by blast
  let ?s = "\<lparr>Value_elem = intT, Value_start = 0, Value_len = 4, Value_cap = 4,
            swap_start = 0, swap_len = 4, swapOffset = 0\<rparr>"
  let ?st = "ints [4, 1, 3, 2]"
  note m = intFn_view [OF f(2), of 4]
  have n: "mustSlice fns (Val intT 7) = Inl (PanicError (NotASlice intT))"
    by (simp add: mustSlice_def NewSlice_def)
  have i: "in_store ?s ?st" by (simp add: in_store_def ints_def)
  have r: "returns_on fns (set (window ?s ?st))"
    by (simp add: returns_on_iff window_def ints_def f)
  from Select_out_of_bounds [of fns "SliceV intT 0 4 4" 4 ?st, unfolded m sum.case]
  have 1: "Select fns (SliceV intT 0 4 4) 4 ?st = (Inl (KOutOfBounds 4 4), ?st)"
    by (simp add: Len_def)
  from Select_out_of_bounds [of fns "SliceV intT 0 4 4" "- 1" ?st, unfolded m sum.case]
  have 2: "Select fns (SliceV intT 0 4 4) (- 1) ?st = (Inl (KOutOfBounds (- 1) 4), ?st)"
    by (simp add: Len_def)
  from Select_out_of_bounds [of fns "SliceV intT 0 4 4" 3 ?st, unfolded m sum.case] i r
  obtain st' where 3: "Select fns (SliceV intT 0 4 4) 3 ?st = (Inr (), st')"
    by (auto simp: Len_def)
  from Select_out_of_bounds [of fns "Val intT 7" 0 ?st, unfolded n sum.case]
  have 4: "Select fns (Val intT 7) 0 ?st = (Inl (PanicError (NotASlice intT)), ?st)" .
  from f(1) m i r 1 2 3 4 show ?thesis by blast
qed

end
